theory Spec2Isabelle
  imports Main "HOL-Library.Word" "HOL-Library.Monad_Syntax"
begin

section \<open>The revision-file statistics engine of FSFS (stats.c)\<close>

text \<open>
  A shallow embedding of \<^verbatim>\<open>subversion/libsvn_fs_fs/stats.c\<close>. The C structures become
  records, \<^verbatim>\<open>svn_error_t *\<close> results become values of \<open>svn_error option\<close> (\<open>None\<close> is
  \<^verbatim>\<open>SVN_NO_ERROR\<close>), and the objects the code reaches through pointers live in two
  stores kept in the query: one of \<^verbatim>\<open>revision_info_t\<close> objects and one of
  \<^verbatim>\<open>rep_stats_t\<close> objects. An address is the index of the object in its store; the
  arrays of the C code hold addresses, as they hold pointers there.

  Integer types follow an LP64 platform: \<^verbatim>\<open>apr_size_t\<close>, \<^verbatim>\<open>apr_uint64_t\<close> and
  \<^verbatim>\<open>apr_int64_t\<close> are 64-bit words (read with \<open>unat\<close> or \<open>sint\<close>), \<^verbatim>\<open>apr_uint32_t\<close> is a
  32-bit word and \<^verbatim>\<open>apr_uint16_t\<close> a 16-bit word. File offsets (\<^verbatim>\<open>apr_off_t\<close>) and revision
  numbers (\<^verbatim>\<open>svn_revnum_t\<close>) are integers; the code's own comment in
  \<^verbatim>\<open>create_query\<close> limits it to repositories whose revision numbers fit 31 bits.
  The counters of \<^verbatim>\<open>svn_fs_fs__stats_t\<close> are declared in
  \<^verbatim>\<open>private/svn_fs_fs_private.h\<close>, which is not among the sources; they are modelled as
  unbounded integers.
\<close>

subsection \<open>Errors\<close>

text \<open>
  \<open>Undefined_behaviour\<close> is not an \<^verbatim>\<open>svn_error_t\<close>: it marks the places where the C
  code has no defined result (a shift past the width of the type, a read outside an
  array, a NULL dereference).
\<close>

datatype svn_error =
    SVN_ERR_FS_CORRUPT
  | SVN_ERR_IO
  | SVN_ERR_CANCELLED
  | SVN_ERR_ASSERTION_FAIL
  | SVN_ERR_EXTERNAL nat
  | Undefined_behaviour

subsection \<open>Representations and revisions\<close>

datatype rep_kind_t = unused_rep | dir_property_rep | file_property_rep | dir_rep | file_rep

record rep_stats_t =
  rep_offset :: int
  rep_size :: "64 word"
  rep_expanded_size :: "64 word"
  rep_revision :: int
  ref_count :: "32 word"
  header_size :: "16 word"
  kind :: rep_kind_t

text \<open>
  A rev or pack file handle: whether it is still open, and the bytes of the file.
\<close>

record revision_file_t =
  rf_open :: bool
  rf_content :: string

record revision_info_t =
  ri_revision :: int
  ri_offset :: int
  changes :: "64 word"
  changes_len :: "64 word"
  change_count :: "64 word"
  ri_end :: int
  dir_noderev_count :: "64 word"
  file_noderev_count :: "64 word"
  dir_noderev_size :: "64 word"
  file_noderev_size :: "64 word"
  representations :: "nat list"
  rev_file :: "revision_file_t option"

subsection \<open>The statistics structure\<close>

text \<open>
  Modelled from the spec: the layout of \<^verbatim>\<open>svn_fs_fs__stats_t\<close> and of the structures
  it is made of (histograms of 64 buckets with a total, the largest-changes list, the
  per-kind representation statistics) is declared in a header that is not among the
  sources. The field names are those stats.c uses.
\<close>

record histogram_line =
  hl_count :: int
  hl_sum :: int

record histogram =
  total :: histogram_line
  lines :: "histogram_line list"

record large_change_info =
  lci_size :: int
  lci_revision :: int
  lci_path :: string

record largest_changes_t =
  lc_count :: nat
  min_size :: int
  lc_changes :: "large_change_info list"

record rep_pack_stats =
  rp_count :: int
  packed_size :: int
  rp_expanded_size :: int
  overhead_size :: int

record representation_stats =
  rs_total :: rep_pack_stats
  uniques :: rep_pack_stats
  shared :: rep_pack_stats
  references :: int
  rs_expanded_size :: int

record node_stats =
  ns_count :: int
  ns_size :: int

record extension_info =
  extension :: string
  node_histogram :: histogram
  rep_histogram :: histogram

record stats_t =
  total_rep_stats :: representation_stats
  file_rep_stats :: representation_stats
  dir_rep_stats :: representation_stats
  file_prop_rep_stats :: representation_stats
  dir_prop_rep_stats :: representation_stats
  total_node_stats :: node_stats
  file_node_stats :: node_stats
  dir_node_stats :: node_stats
  revision_count :: int
  st_change_count :: int
  change_len :: int
  total_size :: int
  rep_size_histogram :: histogram
  node_size_histogram :: histogram
  added_rep_size_histogram :: histogram
  added_node_size_histogram :: histogram
  unused_rep_histogram :: histogram
  file_histogram :: histogram
  file_rep_histogram :: histogram
  file_prop_histogram :: histogram
  file_prop_rep_histogram :: histogram
  dir_histogram :: histogram
  dir_rep_histogram :: histogram
  dir_prop_histogram :: histogram
  dir_prop_rep_histogram :: histogram
  largest_changes :: largest_changes_t
  by_extension :: "string \<rightharpoonup> extension_info"

definition zero_line :: histogram_line where
  "zero_line = \<lparr>hl_count = 0, hl_sum = 0\<rparr>"

definition zero_histogram :: histogram where
  "zero_histogram = \<lparr>total = zero_line, lines = replicate 64 zero_line\<rparr>"

definition zero_rep_pack_stats :: rep_pack_stats where
  "zero_rep_pack_stats =
     \<lparr>rp_count = 0, packed_size = 0, rp_expanded_size = 0, overhead_size = 0\<rparr>"

definition zero_representation_stats :: representation_stats where
  "zero_representation_stats =
     \<lparr>rs_total = zero_rep_pack_stats, uniques = zero_rep_pack_stats,
      shared = zero_rep_pack_stats, references = 0, rs_expanded_size = 0\<rparr>"

definition zero_node_stats :: node_stats where
  "zero_node_stats = \<lparr>ns_count = 0, ns_size = 0\<rparr>"

subsection \<open>initialize_largest_changes\<close>

text \<open>\<^verbatim>\<open>SVN_INVALID_REVNUM\<close> is \<open>-1\<close>.\<close>

definition initialize_largest_changes :: "nat \<Rightarrow> largest_changes_t" where
  "initialize_largest_changes n =
     \<lparr>lc_count = n, min_size = 1,
      lc_changes = replicate n \<lparr>lci_size = 0, lci_revision = - 1, lci_path = []\<rparr>\<rparr>"

subsection \<open>add_to_histogram\<close>

text \<open>
  The loop \<^verbatim>\<open>while (((apr_int64_t)(1) << shift) <= size) shift++;\<close>. The value
  \<^verbatim>\<open>1 << shift\<close> is an \<^verbatim>\<open>apr_int64_t\<close>: for \<open>shift < 63\<close> it is \<open>2 ^ shift\<close>, and for
  \<open>shift = 63\<close> the shift overflows the signed type, which C leaves undefined; the
  loop has no result then (\<open>None\<close>).
\<close>

function shift_loop :: "int \<Rightarrow> nat \<Rightarrow> nat option" where
  "shift_loop sz shift =
     (if 63 \<le> shift then None
      else if 2 ^ shift \<le> sz then shift_loop sz (shift + 1)
      else Some shift)"
  by pat_completeness auto
termination
  by (relation "measure (\<lambda>(sz, shift). 63 - shift)") auto

definition add_line :: "histogram_line \<Rightarrow> int \<Rightarrow> histogram_line" where
  "add_line l sz = \<lparr>hl_count = hl_count l + 1, hl_sum = hl_sum l + sz\<rparr>"

definition add_to_histogram :: "histogram \<Rightarrow> 64 word \<Rightarrow> histogram option" where
  "add_to_histogram h sz =
     (case shift_loop (sint sz) 0 of
        None \<Rightarrow> None
      | Some shift \<Rightarrow>
          if shift < length (lines h)
          then Some \<lparr>total = add_line (total h) (sint sz),
                     lines = (lines h)[shift := add_line (lines h ! shift) (sint sz)]\<rparr>
          else None)"

subsection \<open>add_change\<close>

text \<open>
  The insertion loop of \<^verbatim>\<open>add_change\<close>:
  \<^verbatim>\<open>for (i = count - 1; i > 0; --i)
    if (changes[i-1]->size >= rep_size) break;
    else changes[i] = changes[i-1];\<close>
  It returns the array and the final \<open>i\<close>.
\<close>

fun insertion_loop ::
  "large_change_info list \<Rightarrow> int \<Rightarrow> nat \<Rightarrow> large_change_info list \<times> nat" where
  "insertion_loop cs sz 0 = (cs, 0)"
| "insertion_loop cs sz (Suc j) =
     (if lci_size (cs ! j) \<ge> sz then (cs, Suc j)
      else insertion_loop (cs[Suc j := cs ! j]) sz j)"

text \<open>
  The block "identify largest reps" of \<^verbatim>\<open>add_change\<close>. The entries of
  \<^verbatim>\<open>changes\<close> are pointers to distinct structures that the loop only permutes, so the
  array is modelled by the values it points to. With a capacity of 0 the C code
  writes to \<^verbatim>\<open>changes[-1]\<close>.
\<close>

definition identify_largest ::
  "largest_changes_t \<Rightarrow> int \<Rightarrow> int \<Rightarrow> string \<Rightarrow> largest_changes_t option" where
  "identify_largest lc sz revision path =
     (if sz \<ge> min_size lc then
        (if lc_count lc = 0 \<or> length (lc_changes lc) \<noteq> lc_count lc then None
         else
           let info = \<lparr>lci_size = sz, lci_revision = revision, lci_path = path\<rparr>;
               cs0 = (lc_changes lc)[lc_count lc - 1 := info];
               (cs1, i) = insertion_loop cs0 sz (lc_count lc - 1);
               cs2 = cs1[i := info]
           in Some (lc\<lparr>min_size := lci_size (cs2 ! (lc_count lc - 1)), lc_changes := cs2\<rparr>))
      else Some lc)"

text \<open>\<^verbatim>\<open>strrchr\<close>: the index of the last occurrence of a character, if any.\<close>

fun strrchr_from :: "char \<Rightarrow> string \<Rightarrow> nat \<Rightarrow> nat option \<Rightarrow> nat option" where
  "strrchr_from c [] i found = found"
| "strrchr_from c (x # xs) i found =
     strrchr_from c xs (i + 1) (if x = c then Some i else found)"

definition strrchr :: "char \<Rightarrow> string \<Rightarrow> nat option" where
  "strrchr c s = strrchr_from c s 0 None"

text \<open>
  The extension of the file name of a path, as \<^verbatim>\<open>add_change\<close> determines it: the
  text from the last dot after the last slash, and \<^verbatim>\<open>"(none)"\<close> when there is no slash,
  no dot behind it, or the dot directly follows the slash.
\<close>

definition extension_of :: "string \<Rightarrow> string" where
  "extension_of path =
     (case strrchr (CHR ''/'') path of
        None \<Rightarrow> ''(none)''
      | Some f \<Rightarrow>
          (case strrchr (CHR ''.'') (drop f path) of
             None \<Rightarrow> ''(none)''
           | Some e \<Rightarrow> if e = 1 then ''(none)'' else drop (f + e) path))"

text \<open>
  The three groups of histogram updates of \<^verbatim>\<open>add_change\<close>, under the comments of
  the source: "global histograms", "specific histograms by type" and "by extension".
\<close>

definition global_histograms :: "stats_t \<Rightarrow> 64 word \<Rightarrow> 64 word \<Rightarrow> bool \<Rightarrow> stats_t option" where
  "global_histograms st rep_sz expanded_sz plain_added =
     do {
       h1 \<leftarrow> add_to_histogram (rep_size_histogram st) rep_sz;
       h2 \<leftarrow> add_to_histogram (node_size_histogram st) expanded_sz;
       let st = st\<lparr>rep_size_histogram := h1, node_size_histogram := h2\<rparr>;
       if plain_added then
         do {
           h3 \<leftarrow> add_to_histogram (added_rep_size_histogram st) rep_sz;
           h4 \<leftarrow> add_to_histogram (added_node_size_histogram st) expanded_sz;
           Some (st\<lparr>added_rep_size_histogram := h3, added_node_size_histogram := h4\<rparr>)
         }
       else Some st
     }"

definition type_histograms ::
  "stats_t \<Rightarrow> 64 word \<Rightarrow> 64 word \<Rightarrow> rep_kind_t \<Rightarrow> stats_t option" where
  "type_histograms st rep_sz expanded_sz k =
     (case k of
        unused_rep \<Rightarrow>
          do {
            h \<leftarrow> add_to_histogram (unused_rep_histogram st) rep_sz;
            Some (st\<lparr>unused_rep_histogram := h\<rparr>)
          }
      | dir_property_rep \<Rightarrow>
          do {
            h \<leftarrow> add_to_histogram (dir_prop_rep_histogram st) rep_sz;
            h' \<leftarrow> add_to_histogram (dir_prop_histogram st) expanded_sz;
            Some (st\<lparr>dir_prop_rep_histogram := h, dir_prop_histogram := h'\<rparr>)
          }
      | file_property_rep \<Rightarrow>
          do {
            h \<leftarrow> add_to_histogram (file_prop_rep_histogram st) rep_sz;
            h' \<leftarrow> add_to_histogram (file_prop_histogram st) expanded_sz;
            Some (st\<lparr>file_prop_rep_histogram := h, file_prop_histogram := h'\<rparr>)
          }
      | dir_rep \<Rightarrow>
          do {
            h \<leftarrow> add_to_histogram (dir_rep_histogram st) rep_sz;
            h' \<leftarrow> add_to_histogram (dir_histogram st) expanded_sz;
            Some (st\<lparr>dir_rep_histogram := h, dir_histogram := h'\<rparr>)
          }
      | file_rep \<Rightarrow>
          do {
            h \<leftarrow> add_to_histogram (file_rep_histogram st) rep_sz;
            h' \<leftarrow> add_to_histogram (file_histogram st) expanded_sz;
            Some (st\<lparr>file_rep_histogram := h, file_histogram := h'\<rparr>)
          })"

definition extension_histograms ::
  "stats_t \<Rightarrow> 64 word \<Rightarrow> 64 word \<Rightarrow> string \<Rightarrow> stats_t option" where
  "extension_histograms st rep_sz expanded_sz path =
     (let ext = extension_of path;
          info = (case by_extension st ext of
                    None \<Rightarrow> \<lparr>extension = ext, node_histogram = zero_histogram,
                              rep_histogram = zero_histogram\<rparr>
                  | Some info \<Rightarrow> info)
      in do {
           nh \<leftarrow> add_to_histogram (node_histogram info) expanded_sz;
           rh \<leftarrow> add_to_histogram (rep_histogram info) rep_sz;
           Some (st\<lparr>by_extension := (by_extension st)
                      (ext \<mapsto> info\<lparr>node_histogram := nh, rep_histogram := rh\<rparr>)\<rparr>)
         })"

definition add_change ::
  "stats_t \<Rightarrow> 64 word \<Rightarrow> 64 word \<Rightarrow> int \<Rightarrow> string \<Rightarrow> rep_kind_t \<Rightarrow> bool \<Rightarrow> stats_t option"
  where
  "add_change st rep_sz expanded_sz revision path k plain_added =
     do {
       lc \<leftarrow> identify_largest (largest_changes st) (sint rep_sz) revision path;
       st1 \<leftarrow> global_histograms (st\<lparr>largest_changes := lc\<rparr>) rep_sz expanded_sz plain_added;
       st2 \<leftarrow> type_histograms st1 rep_sz expanded_sz k;
       if k = file_rep then extension_histograms st2 rep_sz expanded_sz path else Some st2
     }"

subsection \<open>get_change_count\<close>

definition newline :: char where
  "newline = CHR 0x0A"

text \<open>The line count of the loop, over the bytes the pointer walks.\<close>

fun count_lines :: "string \<Rightarrow> nat \<Rightarrow> nat" where
  "count_lines [] n = n"
| "count_lines (c # cs) n = count_lines cs (if c = newline then n + 1 else n)"

text \<open>
  \<^verbatim>\<open>get_change_count(changes, len)\<close> reads the \<open>len\<close> bytes at \<open>changes\<close>; the callers
  pass a buffer that holds them.
\<close>

definition get_change_count :: "string \<Rightarrow> nat \<Rightarrow> nat" where
  "get_change_count chs len = count_lines (take len chs) 0 div 2"

subsection \<open>Aggregation: add_rep_pack_stats, add_rep_stats\<close>

definition add_rep_pack_stats :: "rep_pack_stats \<Rightarrow> rep_stats_t \<Rightarrow> rep_pack_stats" where
  "add_rep_pack_stats s rep =
     \<lparr>rp_count = rp_count s + 1,
      packed_size = packed_size s + uint (rep_size rep),
      rp_expanded_size = rp_expanded_size s + uint (rep_expanded_size rep),
      overhead_size = overhead_size s + (uint (header_size rep) + 7)\<rparr>"

text \<open>
  \<^verbatim>\<open>rep->ref_count * rep->expanded_size\<close> multiplies an \<^verbatim>\<open>apr_uint32_t\<close> by an
  \<^verbatim>\<open>apr_size_t\<close>: the product is computed in 64 bits, unsigned.
\<close>

definition add_rep_stats :: "representation_stats \<Rightarrow> rep_stats_t \<Rightarrow> representation_stats"
  where
  "add_rep_stats s rep =
     (let s1 = s\<lparr>rs_total := add_rep_pack_stats (rs_total s) rep\<rparr>;
          s2 = (if ref_count rep = 1
                then s1\<lparr>uniques := add_rep_pack_stats (uniques s1) rep\<rparr>
                else s1\<lparr>shared := add_rep_pack_stats (shared s1) rep\<rparr>)
      in s2\<lparr>references := references s2 + uint (ref_count rep),
             rs_expanded_size := rs_expanded_size s2
                + uint ((ucast (ref_count rep) :: 64 word) * rep_expanded_size rep)\<rparr>)"

subsection \<open>The file system and the callbacks\<close>

text \<open>
  What the engine reads from the file system module: decoded node-revisions, directory
  contents, the pack manifest, the p2l index. These routines are not part of stats.c;
  the model takes them as the fields of \<open>svn_fs_t\<close>, each returning an error or a
  value as the C routine does.
\<close>

type_synonym ptr = nat

record representation_t =
  r_revision :: int
  r_item_index :: "64 word"
  r_size :: "64 word"
  r_expanded_size :: "64 word"

datatype svn_node_kind_t =
  svn_node_none | svn_node_file | svn_node_dir | svn_node_unknown | svn_node_symlink

record node_revision_t =
  nr_kind :: svn_node_kind_t
  data_rep :: "representation_t option"
  prop_rep :: "representation_t option"
  predecessor_id :: "(int \<times> 64 word) option"
  created_path :: string

record svn_fs_dirent_t =
  dirent_name :: string
  dirent_id_rev :: int
  dirent_id_item :: "64 word"

datatype item_type_t = ITEM_TYPE_NODEREV | ITEM_TYPE_CHANGES | ITEM_TYPE_OTHER nat

record p2l_entry_t =
  pe_offset :: int
  pe_size :: int
  pe_type :: item_type_t
  pe_item_revision :: int

text \<open>
  A string buffer: its \<open>len\<close> bytes, and whether the byte behind them is the NUL that
  C string functions stop at. \<^verbatim>\<open>read_item\<close> writes that NUL; \<^verbatim>\<open>get_content\<close> does not.
\<close>

record svn_stringbuf_t =
  sb_data :: string
  sb_terminated :: bool

record svn_fs_t =
  use_log_addressing :: bool
  fs_shard_size :: int
  fs_youngest_rev :: "svn_error + int"
  fs_min_unpacked_rev :: "svn_error + int"
  open_pack_or_rev_file :: "int \<Rightarrow> svn_error + string"
  close_revision_file :: "int \<Rightarrow> svn_error option"
  get_packed_offset :: "int \<Rightarrow> svn_error + int"
  read_rep_header :: "string \<Rightarrow> int \<Rightarrow> svn_error + 16 word"
  fs_read_noderev :: "string \<Rightarrow> svn_error + node_revision_t"
  rep_contents_dir :: "node_revision_t \<Rightarrow> svn_error + svn_fs_dirent_t list"
  p2l_get_max_offset :: "int \<Rightarrow> svn_error + int"
  p2l_index_lookup :: "int \<Rightarrow> int \<Rightarrow> svn_error + p2l_entry_t list"
  strtoui64 :: "string \<Rightarrow> svn_error + nat"

text \<open>
  The query. Its last five fields are not fields of \<^verbatim>\<open>query_t\<close>: \<open>info_heap\<close> and
  \<open>rep_heap\<close> are the stores of the objects the C code allocates, \<open>progress_log\<close>
  lists the calls made to the progress callback (the revision and the baton passed),
  \<open>cancel_calls\<close> counts the calls made to the cancel callback, and \<open>cancel_impl\<close>
  is what the cancel callback returns, given the function pointer, the number of
  earlier calls and the baton. A pointer is a number, 0 for NULL.
\<close>

record query_t =
  fs :: svn_fs_t
  head :: int
  shard_size :: int
  min_unpacked_rev :: int
  revisions :: "nat list"
  stats :: stats_t
  progress_func :: ptr
  progress_baton :: ptr
  cancel_func :: ptr
  cancel_baton :: ptr
  info_heap :: "revision_info_t list"
  rep_heap :: "rep_stats_t list"
  progress_log :: "(int \<times> ptr) list"
  cancel_calls :: nat
  cancel_impl :: "ptr \<Rightarrow> nat \<Rightarrow> ptr \<Rightarrow> svn_error option"

text \<open>\<^verbatim>\<open>if (query->cancel_func) SVN_ERR(query->cancel_func(query->cancel_baton));\<close>\<close>

definition check_cancel :: "query_t \<Rightarrow> svn_error option \<times> query_t" where
  "check_cancel q =
     (if cancel_func q = 0 then (None, q)
      else (cancel_impl q (cancel_func q) (cancel_calls q) (cancel_baton q),
            q\<lparr>cancel_calls := cancel_calls q + 1\<rparr>))"

text \<open>
  \<^verbatim>\<open>if (query->progress_func) query->progress_func(revision, query->progress_baton, pool);\<close>
  The callback returns nothing.
\<close>

definition notify_progress :: "query_t \<Rightarrow> int \<Rightarrow> query_t" where
  "notify_progress q revision =
     (if progress_func q = 0 then q
      else q\<lparr>progress_log := progress_log q @ [(revision, progress_baton q)]\<rparr>)"

subsection \<open>The representation registry: find_representation, parse_representation\<close>

definition compare_representation_offsets :: "rep_stats_t \<Rightarrow> int \<Rightarrow> int" where
  "compare_representation_offsets rep key =
     (if rep_offset rep < key then - 1 else if rep_offset rep > key then 1 else 0)"

text \<open>
  Modelled from the spec: \<^verbatim>\<open>svn_sort__bsearch_lower_bound\<close> is not among the sources.
  The spec has the registry do a binary search by offset that returns the insertion
  index on a miss; this is that search, between \<open>lo\<close> and \<open>hi\<close> (exclusive).
\<close>

function bsearch_lower_bound :: "rep_stats_t list \<Rightarrow> int \<Rightarrow> nat \<Rightarrow> nat \<Rightarrow> nat" where
  "bsearch_lower_bound xs key lo hi =
     (if lo < hi then
        (let mid = lo + (hi - lo) div 2 in
         if compare_representation_offsets (xs ! mid) key < 0
         then bsearch_lower_bound xs key (mid + 1) hi
         else bsearch_lower_bound xs key lo mid)
      else lo)"
  by pat_completeness auto
termination
  by (relation "measure (\<lambda>(xs, key, lo, hi). hi - lo)") auto

text \<open>
  Modelled from the spec: \<^verbatim>\<open>svn_sort__array_insert\<close> (not among the sources) inserts
  an element at an index and moves the rest up.
\<close>

definition array_insert :: "'a list \<Rightarrow> 'a \<Rightarrow> nat \<Rightarrow> 'a list" where
  "array_insert xs x idx = take idx xs @ x # drop idx xs"

text \<open>
  \<^verbatim>\<open>APR_ARRAY_IDX(query->revisions, revision, revision_info_t*)\<close>, where the code
  tests the result against NULL: an index outside the elements pushed so far gives no
  revision info.
\<close>

definition array_idx :: "nat list \<Rightarrow> int \<Rightarrow> nat option" where
  "array_idx xs i = (if 0 \<le> i \<and> i < int (length xs) then Some (xs ! nat i) else None)"

text \<open>The representations of a revision info, read through their addresses.\<close>

definition reps_of :: "query_t \<Rightarrow> nat \<Rightarrow> rep_stats_t list" where
  "reps_of q ia = map (\<lambda>a. rep_heap q ! a) (representations (info_heap q ! ia))"

text \<open>
  \<open>find_representation\<close> returns the representation found (or NULL), the index
  \<open>*idx\<close> and the revision info it ends with in \<open>*revision_info\<close>.
\<close>

definition find_representation ::
  "query_t \<Rightarrow> nat option \<Rightarrow> int \<Rightarrow> int \<Rightarrow> nat option \<times> int \<times> nat option" where
  "find_representation q revision_info revision offset =
     (let info = (case revision_info of
                    None \<Rightarrow> array_idx (revisions q) revision
                  | Some ia \<Rightarrow>
                      if ri_revision (info_heap q ! ia) \<noteq> revision
                      then array_idx (revisions q) revision
                      else Some ia)
      in case info of
           None \<Rightarrow> (None, - 1, None)
         | Some ia \<Rightarrow>
             (let reps = reps_of q ia;
                  idx = bsearch_lower_bound reps offset 0 (length reps)
              in if idx < length reps \<and> rep_offset (reps ! idx) = offset
                 then (Some (representations (info_heap q ! ia) ! idx), int idx, info)
                 else (None, int idx, info)))"

text \<open>
  \<open>parse_representation\<close> returns the query and the address of the representation.
  When the lookup ends without a revision info, the C code dereferences NULL.
\<close>

definition parse_representation ::
  "query_t \<Rightarrow> representation_t \<Rightarrow> nat \<Rightarrow> svn_error + (query_t \<times> nat)" where
  "parse_representation q rep revision_info =
     (case find_representation q (Some revision_info) (r_revision rep)
             (sint (r_item_index rep)) of
        (Some result, idx, info) \<Rightarrow> Inr (q, result)
      | (None, idx, None) \<Rightarrow> Inl Undefined_behaviour
      | (None, idx, Some ia) \<Rightarrow>
          (let result = \<lparr>rep_offset = sint (r_item_index rep),
                         rep_size = r_size rep,
                         rep_expanded_size = (if r_expanded_size rep \<noteq> 0
                                              then r_expanded_size rep else r_size rep),
                         rep_revision = r_revision rep,
                         ref_count = 0, header_size = 0, kind = unused_rep\<rparr>;
               header =
                 (if use_log_addressing (fs q) then Inr 0
                  else
                    (case rev_file (info_heap q ! ia) of
                       None \<Rightarrow> Inl SVN_ERR_ASSERTION_FAIL
                     | Some f \<Rightarrow>
                         if \<not> rf_open f then Inl Undefined_behaviour
                         else if ri_offset (info_heap q ! ia) + rep_offset result < 0
                         then Inl SVN_ERR_IO
                         else read_rep_header (fs q) (rf_content f)
                                (ri_offset (info_heap q ! ia) + rep_offset result)))
           in case header of
                Inl e \<Rightarrow> Inl e
              | Inr h \<Rightarrow>
                  (let a = length (rep_heap q);
                       info = info_heap q ! ia
                   in Inr (q\<lparr>rep_heap := rep_heap q @ [result\<lparr>header_size := h\<rparr>],
                             info_heap := (info_heap q)
                               [ia := info\<lparr>representations :=
                                  array_insert (representations info) a (nat idx)\<rparr>]\<rparr>,
                           a))))"

subsection \<open>read_noderev and parse_dir\<close>

text \<open>\<^verbatim>\<open>if (++rep->ref_count == 1) rep->kind = k;\<close>\<close>

definition add_reference :: "rep_stats_t \<Rightarrow> rep_kind_t \<Rightarrow> rep_stats_t" where
  "add_reference rep k =
     (let rep' = rep\<lparr>ref_count := ref_count rep + 1\<rparr>
      in if ref_count rep' = 1 then rep'\<lparr>kind := k\<rparr> else rep')"

definition text_kind :: "node_revision_t \<Rightarrow> rep_kind_t" where
  "text_kind noderev = (if nr_kind noderev = svn_node_dir then dir_rep else file_rep)"

definition props_kind :: "node_revision_t \<Rightarrow> rep_kind_t" where
  "props_kind noderev =
     (if nr_kind noderev = svn_node_dir then dir_property_rep else file_property_rep)"

text \<open>
  One of the two blocks of \<^verbatim>\<open>read_noderev\<close> that look a representation up, create it
  when it is new, and count the reference: it returns the query and the pointer
  (\<open>text\<close> or \<open>props\<close>), NULL when the node-revision has no such representation.
\<close>

definition reference_rep ::
  "query_t \<Rightarrow> representation_t option \<Rightarrow> nat \<Rightarrow> rep_kind_t
     \<Rightarrow> svn_error + (query_t \<times> nat option)" where
  "reference_rep q rep revision_info k =
     (case rep of
        None \<Rightarrow> Inr (q, None)
      | Some r \<Rightarrow>
          (case parse_representation q r revision_info of
             Inl e \<Rightarrow> Inl e
           | Inr (q', t) \<Rightarrow>
               Inr (q'\<lparr>rep_heap := (rep_heap q')[t := add_reference (rep_heap q' ! t) k]\<rparr>,
                    Some t)))"

text \<open>
  "record largest changes": \<^verbatim>\<open>add_change\<close> for a representation whose reference
  count is 1 now.
\<close>

definition record_change :: "query_t \<Rightarrow> node_revision_t \<Rightarrow> nat option \<Rightarrow> query_t option" where
  "record_change q noderev rep =
     (case rep of
        None \<Rightarrow> Some q
      | Some t \<Rightarrow>
          (let r = rep_heap q ! t
           in if ref_count r = 1
              then map_option (\<lambda>s. q\<lparr>stats := s\<rparr>)
                     (add_change (stats q) (rep_size r) (rep_expanded_size r) (rep_revision r)
                        (created_path noderev) (kind r) (predecessor_id noderev = None))
              else Some q))"

text \<open>
  \<^verbatim>\<open>strstr(file_content->data + offset, "\n\n")\<close>: the index of the end marker in the
  C string that starts there. The search stops at a NUL; over a buffer without the
  closing NUL it runs past the end.
\<close>

fun strstr_end_marker :: "string \<Rightarrow> bool \<Rightarrow> svn_error + nat option" where
  "strstr_end_marker [] terminated =
     (if terminated then Inr None else Inl Undefined_behaviour)"
| "strstr_end_marker (c # cs) terminated =
     (if c = CHR 0x00 then Inr None
      else if c = newline \<and> cs \<noteq> [] \<and> hd cs = newline then Inr (Some 0)
      else (case strstr_end_marker cs terminated of
              Inl e \<Rightarrow> Inl e
            | Inr None \<Rightarrow> Inr None
            | Inr (Some n) \<Rightarrow> Inr (Some (n + 1))))"

text \<open>"update stats" at the end of \<^verbatim>\<open>read_noderev\<close>.\<close>

definition update_noderev_stats ::
  "query_t \<Rightarrow> nat \<Rightarrow> node_revision_t \<Rightarrow> 64 word \<Rightarrow> query_t" where
  "update_noderev_stats q ia noderev noderev_len =
     (let info = info_heap q ! ia;
          info' = (if nr_kind noderev = svn_node_dir
                   then info\<lparr>dir_noderev_size := dir_noderev_size info + noderev_len,
                             dir_noderev_count := dir_noderev_count info + 1\<rparr>
                   else info\<lparr>file_noderev_size := file_noderev_size info + noderev_len,
                             file_noderev_count := file_noderev_count info + 1\<rparr>)
      in q\<lparr>info_heap := (info_heap q)[ia := info']\<rparr>)"

text \<open>
  \<^verbatim>\<open>read_noderev\<close> up to the point where it may descend into a directory. The result
  is either the error it returns with, or the query, the node-revision, its length
  and whether \<^verbatim>\<open>parse_dir\<close> is called.
\<close>

definition read_noderev_head ::
  "query_t \<Rightarrow> svn_stringbuf_t \<Rightarrow> nat \<Rightarrow> nat
     \<Rightarrow> (svn_error \<times> query_t) + (query_t \<times> node_revision_t \<times> 64 word \<times> bool)" where
  "read_noderev_head q file_content offset revision_info =
     (if offset > length (sb_data file_content) then Inl (Undefined_behaviour, q)
      else
        case strstr_end_marker (drop offset (sb_data file_content))
               (sb_terminated file_content) of
          Inl e \<Rightarrow> Inl (e, q)
        | Inr noderev_end \<Rightarrow>
            (let noderev_len =
                   (case noderev_end of
                      Some n \<Rightarrow> n + 2
                    | None \<Rightarrow> length (sb_data file_content) - offset)
             in case fs_read_noderev (fs q) (drop offset (sb_data file_content)) of
                  Inl e \<Rightarrow> Inl (e, q)
                | Inr noderev \<Rightarrow>
                    (case reference_rep q (data_rep noderev) revision_info
                            (text_kind noderev) of
                       Inl e \<Rightarrow> Inl (e, q)
                     | Inr (q1, text) \<Rightarrow>
                         (case reference_rep q1 (prop_rep noderev) revision_info
                                 (props_kind noderev) of
                            Inl e \<Rightarrow> Inl (e, q1)
                          | Inr (q2, props) \<Rightarrow>
                              (case record_change q2 noderev text of
                                 None \<Rightarrow> Inl (Undefined_behaviour, q2)
                               | Some q3 \<Rightarrow>
                                   (case record_change q3 noderev props of
                                      None \<Rightarrow> Inl (Undefined_behaviour, q3)
                                    | Some q4 \<Rightarrow>
                                        Inr (q4, noderev, of_nat noderev_len,
                                             nr_kind noderev = svn_node_dir
                                             \<and> (case text of
                                                  None \<Rightarrow> False
                                                | Some t \<Rightarrow> ref_count (rep_heap q4 ! t) = 1)
                                             \<and> \<not> use_log_addressing (fs q4))))))))"

text \<open>
  \<^verbatim>\<open>read_noderev\<close> and \<^verbatim>\<open>parse_dir\<close> call each other; nothing in the code bounds the
  depth, so the model counts it down in its first argument and returns \<open>None\<close> when
  the count is used up.
\<close>

fun read_noderev ::
    "nat \<Rightarrow> query_t \<Rightarrow> svn_stringbuf_t \<Rightarrow> nat \<Rightarrow> nat \<Rightarrow> (svn_error option \<times> query_t) option"
  and parse_dir ::
    "nat \<Rightarrow> query_t \<Rightarrow> svn_stringbuf_t \<Rightarrow> node_revision_t \<Rightarrow> nat
       \<Rightarrow> (svn_error option \<times> query_t) option"
  and parse_dir_entries ::
    "nat \<Rightarrow> query_t \<Rightarrow> svn_stringbuf_t \<Rightarrow> svn_fs_dirent_t list \<Rightarrow> nat
       \<Rightarrow> (svn_error option \<times> query_t) option"
  where
  "read_noderev 0 q file_content offset revision_info = None"
| "read_noderev (Suc n) q file_content offset revision_info =
     (case read_noderev_head q file_content offset revision_info of
        Inl (e, q') \<Rightarrow> Some (Some e, q')
      | Inr (q1, noderev, noderev_len, descend) \<Rightarrow>
          (case (if descend then parse_dir n q1 file_content noderev revision_info
                 else Some (None, q1)) of
             None \<Rightarrow> None
           | Some (Some e, q2) \<Rightarrow> Some (Some e, q2)
           | Some (None, q2) \<Rightarrow>
               Some (None, update_noderev_stats q2 revision_info noderev noderev_len)))"
| "parse_dir n q file_content noderev revision_info =
     (case rep_contents_dir (fs q) noderev of
        Inl e \<Rightarrow> Some (Some e, q)
      | Inr entries \<Rightarrow> parse_dir_entries n q file_content entries revision_info)"
| "parse_dir_entries n q file_content [] revision_info = Some (None, q)"
| "parse_dir_entries n q file_content (dirent # entries) revision_info =
     (if dirent_id_rev dirent = ri_revision (info_heap q ! revision_info) then
        (case read_noderev n q file_content (unat (dirent_id_item dirent)) revision_info of
           None \<Rightarrow> None
         | Some (Some e, q') \<Rightarrow> Some (Some e, q')
         | Some (None, q') \<Rightarrow> parse_dir_entries n q' file_content entries revision_info)
      else parse_dir_entries n q file_content entries revision_info)"

subsection \<open>The physical driver\<close>

text \<open>
  \<^verbatim>\<open>get_content\<close>: the \<open>len\<close> bytes at \<open>offset\<close> of the file. The buffer is allocated
  first (\<open>len\<close> is converted to \<^verbatim>\<open>apr_size_t\<close>), then the file is positioned and read
  in full; a read that meets the end of the file is an error. Reading through a
  handle that was closed has no defined result.
\<close>

definition get_content :: "revision_file_t \<Rightarrow> int \<Rightarrow> int \<Rightarrow> svn_error + svn_stringbuf_t" where
  "get_content f offset len =
     (if \<not> rf_open f \<or> len < 0 then Inl Undefined_behaviour
      else if offset < 0 \<or> offset + len > int (length (rf_content f)) then Inl SVN_ERR_IO
      else Inr \<lparr>sb_data = take (nat len) (drop (nat offset) (rf_content f)),
                sb_terminated = False\<rparr>)"

text \<open>\<^verbatim>\<open>strchr\<close>: the index of the first occurrence of a character, if any.\<close>

fun strchr :: "char \<Rightarrow> string \<Rightarrow> nat option" where
  "strchr c [] = None"
| "strchr c (x # xs) = (if x = c then Some 0 else map_option Suc (strchr c xs))"

text \<open>
  \<^verbatim>\<open>read_revision_header\<close> returns \<open>(changes, changes_len, root_noderev)\<close>. \<open>buf\<close> is
  the last block of at most 64 bytes; after its last byte is overwritten with NUL, the C
  string in it ends at the first NUL.
\<close>

definition read_revision_header ::
  "svn_fs_t \<Rightarrow> svn_stringbuf_t \<Rightarrow> svn_error + (64 word \<times> 64 word \<times> 64 word)" where
  "read_revision_header f file_content =
     (let n = length (sb_data file_content);
          len = min 64 n;
          buf = drop (n - len) (sb_data file_content)
      in if len = 0 then Inl Undefined_behaviour
         else if last buf \<noteq> newline then Inl SVN_ERR_FS_CORRUPT
         else
           (let cstr = takeWhile (\<lambda>c. c \<noteq> CHR 0x00) (butlast buf)
            in case strrchr newline cstr of
                 None \<Rightarrow> Inl SVN_ERR_FS_CORRUPT
               | Some line \<Rightarrow>
                   (case strchr (CHR '' '') (drop line cstr) of
                      None \<Rightarrow> Inl SVN_ERR_FS_CORRUPT
                    | Some space \<Rightarrow>
                        (case strtoui64 f (take (space - 1) (drop (line + 1) cstr)) of
                           Inl e \<Rightarrow> Inl e
                         | Inr root_noderev \<Rightarrow>
                             (case strtoui64 f (drop (line + space + 1) cstr) of
                                Inl e \<Rightarrow> Inl e
                              | Inr chg \<Rightarrow>
                                  Inr (of_nat chg,
                                       of_nat n - of_nat chg - of_nat (len - line) + 1,
                                       of_nat root_noderev))))))"

text \<open>A revision info as \<^verbatim>\<open>apr_pcalloc\<close> and \<^verbatim>\<open>apr_array_make\<close> leave it.\<close>

definition empty_revision_info :: revision_info_t where
  "empty_revision_info =
     \<lparr>ri_revision = 0, ri_offset = 0, changes = 0, changes_len = 0, change_count = 0,
      ri_end = 0, dir_noderev_count = 0, file_noderev_count = 0, dir_noderev_size = 0,
      file_noderev_size = 0, representations = [], rev_file = None\<rparr>"

text \<open>
  What \<^verbatim>\<open>read_phys_pack_file\<close> (in its loop) and \<^verbatim>\<open>read_phys_revision_file\<close> both do
  with a revision info whose file, revision, offset and end are set: read the content,
  the header and the change count, parse the tree from the root node-revision, close
  the file, clear \<^verbatim>\<open>info->rev_file\<close> and push the info. The info enters the store when
  \<^verbatim>\<open>read_noderev\<close> needs it.
\<close>

definition read_phys_revision ::
  "nat \<Rightarrow> query_t \<Rightarrow> revision_file_t \<Rightarrow> revision_info_t \<Rightarrow> int
     \<Rightarrow> (svn_error option \<times> query_t) option" where
  "read_phys_revision fuel q f info file_rev =
     (case get_content f (ri_offset info) (ri_end info - ri_offset info) of
        Inl e \<Rightarrow> Some (Some e, q)
      | Inr rev_content \<Rightarrow>
          (case read_revision_header (fs q) rev_content of
             Inl e \<Rightarrow> Some (Some e, q)
           | Inr (chg, chg_len, root_node_offset) \<Rightarrow>
               if unat chg + unat chg_len > length (sb_data rev_content)
               then Some (Some Undefined_behaviour, q)
               else
                 (let info1 = info\<lparr>changes := chg, changes_len := chg_len,
                         change_count := of_nat (get_change_count
                           (drop (unat chg) (sb_data rev_content)) (unat chg_len))\<rparr>;
                      ia = length (info_heap q);
                      q1 = q\<lparr>info_heap := info_heap q @ [info1]\<rparr>
                  in case read_noderev fuel q1 rev_content (unat root_node_offset) ia of
                       None \<Rightarrow> None
                     | Some (Some e, q2) \<Rightarrow> Some (Some e, q2)
                     | Some (None, q2) \<Rightarrow>
                         (case close_revision_file (fs q2) file_rev of
                            Some e \<Rightarrow> Some (Some e, q2)
                          | None \<Rightarrow>
                              Some (None,
                                q2\<lparr>info_heap := (info_heap q2)
                                      [ia := (info_heap q2 ! ia)\<lparr>rev_file := None\<rparr>],
                                    revisions := revisions q2 @ [ia]\<rparr>)))))"

text \<open>
  The loop of \<^verbatim>\<open>read_phys_pack_file\<close> over the revisions of the pack; the second
  argument counts the iterations left. The file is opened once before the loop and
  closed at the end of each iteration.
\<close>

fun phys_pack_loop ::
  "nat \<Rightarrow> nat \<Rightarrow> query_t \<Rightarrow> int \<Rightarrow> revision_file_t \<Rightarrow> int \<Rightarrow> int
     \<Rightarrow> (svn_error option \<times> query_t) option" where
  "phys_pack_loop fuel 0 q base f file_size i = Some (None, q)"
| "phys_pack_loop fuel (Suc k) q base f file_size i =
     (case check_cancel q of
        (Some e, q1) \<Rightarrow> Some (Some e, q1)
      | (None, q1) \<Rightarrow>
          (case get_packed_offset (fs q1) (base + i) of
             Inl e \<Rightarrow> Some (Some e, q1)
           | Inr off \<Rightarrow>
               (case (if i + 1 = shard_size q1 then Inr file_size
                      else get_packed_offset (fs q1) (base + i + 1)) of
                  Inl e \<Rightarrow> Some (Some e, q1)
                | Inr en \<Rightarrow>
                    (case read_phys_revision fuel q1 f
                            (empty_revision_info\<lparr>rev_file := Some f, ri_revision := base + i,
                               ri_offset := off, ri_end := en\<rparr>) base of
                       None \<Rightarrow> None
                     | Some (Some e, q2) \<Rightarrow> Some (Some e, q2)
                     | Some (None, q2) \<Rightarrow>
                         phys_pack_loop fuel k q2 base (f\<lparr>rf_open := False\<rparr>) file_size
                           (i + 1)))))"

definition read_phys_pack_file ::
  "nat \<Rightarrow> query_t \<Rightarrow> int \<Rightarrow> (svn_error option \<times> query_t) option" where
  "read_phys_pack_file fuel q base =
     (case open_pack_or_rev_file (fs q) base of
        Inl e \<Rightarrow> Some (Some e, q)
      | Inr bytes \<Rightarrow>
          (case phys_pack_loop fuel (nat (shard_size q)) q base
                  \<lparr>rf_open = True, rf_content = bytes\<rparr> (int (length bytes)) 0 of
             None \<Rightarrow> None
           | Some (Some e, q') \<Rightarrow> Some (Some e, q')
           | Some (None, q') \<Rightarrow> Some (None, notify_progress q' base)))"

text \<open>"show progress every 1000 revs or so" of the two drivers for single revisions.\<close>

definition notify_revision_progress :: "query_t \<Rightarrow> int \<Rightarrow> query_t" where
  "notify_revision_progress q revision =
     (let q1 = (if shard_size q \<noteq> 0 \<and> revision mod shard_size q = 0
                then notify_progress q revision else q)
      in if shard_size q1 = 0 \<and> revision mod 1000 = 0
         then notify_progress q1 revision else q1)"

definition read_phys_revision_file ::
  "nat \<Rightarrow> query_t \<Rightarrow> int \<Rightarrow> (svn_error option \<times> query_t) option" where
  "read_phys_revision_file fuel q revision =
     (case check_cancel q of
        (Some e, q1) \<Rightarrow> Some (Some e, q1)
      | (None, q1) \<Rightarrow>
          (case open_pack_or_rev_file (fs q1) revision of
             Inl e \<Rightarrow> Some (Some e, q1)
           | Inr bytes \<Rightarrow>
               (let f = \<lparr>rf_open = True, rf_content = bytes\<rparr>
                in case read_phys_revision fuel q1 f
                          (empty_revision_info\<lparr>rev_file := Some f, ri_revision := revision,
                             ri_offset := 0, ri_end := int (length bytes)\<rparr>) revision of
                     None \<Rightarrow> None
                   | Some (Some e, q2) \<Rightarrow> Some (Some e, q2)
                   | Some (None, q2) \<Rightarrow> Some (None, notify_revision_progress q2 revision))))"

subsection \<open>The logical driver\<close>

text \<open>
  \<^verbatim>\<open>read_item\<close>: the bytes of the item an index entry describes, followed by a NUL.
\<close>

definition read_item :: "revision_file_t \<Rightarrow> p2l_entry_t \<Rightarrow> svn_error + svn_stringbuf_t" where
  "read_item f entry =
     (if \<not> rf_open f \<or> pe_size entry < 0 then Inl Undefined_behaviour
      else if pe_offset entry < 0
              \<or> pe_offset entry + pe_size entry > int (length (rf_content f))
      then Inl SVN_ERR_IO
      else Inr \<lparr>sb_data = take (nat (pe_size entry))
                            (drop (nat (pe_offset entry)) (rf_content f)),
                sb_terminated = True\<rparr>)"

text \<open>
  The first loop of \<^verbatim>\<open>read_log_rev_or_packfile\<close>: a new revision info for each of the
  \<open>count\<close> revisions from \<open>revision\<close> on, pushed onto \<^verbatim>\<open>query->revisions\<close>.
\<close>

fun push_revision_infos :: "nat \<Rightarrow> query_t \<Rightarrow> int \<Rightarrow> query_t" where
  "push_revision_infos 0 q revision = q"
| "push_revision_infos (Suc k) q revision =
     push_revision_infos k
       (q\<lparr>info_heap := info_heap q @ [empty_revision_info\<lparr>ri_revision := revision\<rparr>],
          revisions := revisions q @ [length (info_heap q)]\<rparr>)
       (revision + 1)"

text \<open>
  "read and process interesting items": what the loop over the entries does with an
  entry it does not skip. An item revision outside \<^verbatim>\<open>query->revisions\<close> is a read
  outside the array.
\<close>

definition process_entry ::
  "nat \<Rightarrow> query_t \<Rightarrow> revision_file_t \<Rightarrow> p2l_entry_t \<Rightarrow> (svn_error option \<times> query_t) option"
  where
  "process_entry fuel q f entry =
     (case pe_type entry of
        ITEM_TYPE_NODEREV \<Rightarrow>
          (case array_idx (revisions q) (pe_item_revision entry) of
             None \<Rightarrow> Some (Some Undefined_behaviour, q)
           | Some ia \<Rightarrow>
               (case read_item f entry of
                  Inl e \<Rightarrow> Some (Some e, q)
                | Inr item \<Rightarrow> read_noderev fuel q item 0 ia))
      | ITEM_TYPE_CHANGES \<Rightarrow>
          (case array_idx (revisions q) (pe_item_revision entry) of
             None \<Rightarrow> Some (Some Undefined_behaviour, q)
           | Some ia \<Rightarrow>
               (case read_item f entry of
                  Inl e \<Rightarrow> Some (Some e, q)
                | Inr item \<Rightarrow>
                    (let info = info_heap q ! ia
                     in Some (None,
                          q\<lparr>info_heap := (info_heap q)
                              [ia := info\<lparr>change_count :=
                                        of_nat (get_change_count (sb_data item)
                                                  (length (sb_data item))),
                                      changes_len :=
                                        changes_len info + of_int (pe_size entry)\<rparr>]\<rparr>))))
      | ITEM_TYPE_OTHER t \<Rightarrow> Some (None, q))"

text \<open>
  The loop over the entries of one block; \<open>i\<close> is the index of the entry and
  \<open>offset\<close> the position of the walk. It returns the position it ends with.
\<close>

fun log_entries ::
  "nat \<Rightarrow> query_t \<Rightarrow> revision_file_t \<Rightarrow> p2l_entry_t list \<Rightarrow> nat \<Rightarrow> int
     \<Rightarrow> (svn_error option \<times> query_t \<times> int) option" where
  "log_entries fuel q f [] i offset = Some (None, q, offset)"
| "log_entries fuel q f (entry # entries) i offset =
     (if i = 0 \<and> pe_offset entry < offset then log_entries fuel q f entries (i + 1) offset
      else if pe_size entry = 0 then log_entries fuel q f entries (i + 1) offset
      else
        (case process_entry fuel q f entry of
           None \<Rightarrow> None
         | Some (Some e, q') \<Rightarrow> Some (Some e, q', offset)
         | Some (None, q') \<Rightarrow>
             log_entries fuel q' f entries (i + 1) (offset + pe_size entry)))"

text \<open>
  The loop over the blocks, \<^verbatim>\<open>for (offset = 0; offset < max_offset; )\<close>. Nothing bounds
  the number of its iterations (a block whose entries are all skipped leaves the
  position where it was), so the second argument counts them down.
\<close>

fun log_blocks ::
  "nat \<Rightarrow> nat \<Rightarrow> query_t \<Rightarrow> int \<Rightarrow> revision_file_t \<Rightarrow> int \<Rightarrow> int
     \<Rightarrow> (svn_error option \<times> query_t) option" where
  "log_blocks fuel 0 q base f max_offset offset =
     (if offset < max_offset then None else Some (None, q))"
| "log_blocks fuel (Suc n) q base f max_offset offset =
     (if offset < max_offset then
        (case check_cancel q of
           (Some e, q1) \<Rightarrow> Some (Some e, q1)
         | (None, q1) \<Rightarrow>
             (case p2l_index_lookup (fs q1) base offset of
                Inl e \<Rightarrow> Some (Some e, q1)
              | Inr entries \<Rightarrow>
                  (case log_entries fuel q1 f entries 0 offset of
                     None \<Rightarrow> None
                   | Some (Some e, q2, offset') \<Rightarrow> Some (Some e, q2)
                   | Some (None, q2, offset') \<Rightarrow>
                       log_blocks fuel n q2 base f max_offset offset')))
      else Some (None, q))"

definition read_log_rev_or_packfile ::
  "nat \<Rightarrow> query_t \<Rightarrow> int \<Rightarrow> int \<Rightarrow> (svn_error option \<times> query_t) option" where
  "read_log_rev_or_packfile fuel q base count =
     (let q1 = push_revision_infos (nat count) q base
      in case open_pack_or_rev_file (fs q1) base of
           Inl e \<Rightarrow> Some (Some e, q1)
         | Inr bytes \<Rightarrow>
             (case p2l_get_max_offset (fs q1) base of
                Inl e \<Rightarrow> Some (Some e, q1)
              | Inr max_offset \<Rightarrow>
                  (case array_idx (revisions q1) base of
                     None \<Rightarrow> Some (Some Undefined_behaviour, q1)
                   | Some ia \<Rightarrow>
                       log_blocks fuel fuel
                         (q1\<lparr>info_heap := (info_heap q1)
                               [ia := (info_heap q1 ! ia)\<lparr>ri_end := max_offset\<rparr>]\<rparr>)
                         base \<lparr>rf_open = True, rf_content = bytes\<rparr> max_offset 0)))"

definition read_log_pack_file ::
  "nat \<Rightarrow> query_t \<Rightarrow> int \<Rightarrow> (svn_error option \<times> query_t) option" where
  "read_log_pack_file fuel q base =
     (case read_log_rev_or_packfile fuel q base (shard_size q) of
        None \<Rightarrow> None
      | Some (Some e, q') \<Rightarrow> Some (Some e, q')
      | Some (None, q') \<Rightarrow> Some (None, notify_progress q' base))"

definition read_log_revision_file ::
  "nat \<Rightarrow> query_t \<Rightarrow> int \<Rightarrow> (svn_error option \<times> query_t) option" where
  "read_log_revision_file fuel q revision =
     (case read_log_rev_or_packfile fuel q revision 1 of
        None \<Rightarrow> None
      | Some (Some e, q') \<Rightarrow> Some (Some e, q')
      | Some (None, q') \<Rightarrow> Some (None, notify_revision_progress q' revision))"

subsection \<open>read_revisions\<close>

text \<open>
  "read all packed revs": the loop steps by \<^verbatim>\<open>query->shard_size\<close>, which nothing
  keeps positive, so the second argument counts its iterations down. It returns the
  revision it ends with.
\<close>

fun read_packed_revs ::
  "nat \<Rightarrow> nat \<Rightarrow> query_t \<Rightarrow> int \<Rightarrow> (svn_error option \<times> query_t \<times> int) option" where
  "read_packed_revs fuel 0 q revision =
     (if revision < min_unpacked_rev q then None else Some (None, q, revision))"
| "read_packed_revs fuel (Suc n) q revision =
     (if revision < min_unpacked_rev q then
        (case (if use_log_addressing (fs q) then read_log_pack_file fuel q revision
               else read_phys_pack_file fuel q revision) of
           None \<Rightarrow> None
         | Some (Some e, q') \<Rightarrow> Some (Some e, q', revision)
         | Some (None, q') \<Rightarrow> read_packed_revs fuel n q' (revision + shard_size q'))
      else Some (None, q, revision))"

text \<open>
  "read non-packed revs": the first argument is the number of revisions from
  \<open>revision\<close> up to \<^verbatim>\<open>query->head\<close>.
\<close>

fun read_unpacked_revs ::
  "nat \<Rightarrow> nat \<Rightarrow> query_t \<Rightarrow> int \<Rightarrow> (svn_error option \<times> query_t) option" where
  "read_unpacked_revs 0 fuel q revision = Some (None, q)"
| "read_unpacked_revs (Suc k) fuel q revision =
     (case (if use_log_addressing (fs q) then read_log_revision_file fuel q revision
            else read_phys_revision_file fuel q revision) of
        None \<Rightarrow> None
      | Some (Some e, q') \<Rightarrow> Some (Some e, q')
      | Some (None, q') \<Rightarrow> read_unpacked_revs k fuel q' (revision + 1))"

definition read_revisions :: "nat \<Rightarrow> query_t \<Rightarrow> (svn_error option \<times> query_t) option" where
  "read_revisions fuel q =
     (case read_packed_revs fuel fuel q 0 of
        None \<Rightarrow> None
      | Some (Some e, q', revision) \<Rightarrow> Some (Some e, q')
      | Some (None, q', revision) \<Rightarrow>
          read_unpacked_revs (nat (head q' + 1 - revision)) fuel q' revision)"

subsection \<open>aggregate_stats\<close>

text \<open>The body of the inner loop: one representation.\<close>

definition aggregate_rep :: "stats_t \<Rightarrow> rep_stats_t \<Rightarrow> stats_t" where
  "aggregate_rep st rep =
     (let st1 = (case kind rep of
                   file_rep \<Rightarrow> st\<lparr>file_rep_stats := add_rep_stats (file_rep_stats st) rep\<rparr>
                 | dir_rep \<Rightarrow> st\<lparr>dir_rep_stats := add_rep_stats (dir_rep_stats st) rep\<rparr>
                 | file_property_rep \<Rightarrow>
                     st\<lparr>file_prop_rep_stats := add_rep_stats (file_prop_rep_stats st) rep\<rparr>
                 | dir_property_rep \<Rightarrow>
                     st\<lparr>dir_prop_rep_stats := add_rep_stats (dir_prop_rep_stats st) rep\<rparr>
                 | unused_rep \<Rightarrow> st)
      in st1\<lparr>total_rep_stats := add_rep_stats (total_rep_stats st1) rep\<rparr>)"

text \<open>
  The body of the outer loop: one revision, given with its representations.
\<close>

definition aggregate_revision ::
  "stats_t \<Rightarrow> revision_info_t \<Rightarrow> rep_stats_t list \<Rightarrow> stats_t" where
  "aggregate_revision st revision reps =
     fold (\<lambda>rep st. aggregate_rep st rep) reps
       (st\<lparr>st_change_count := st_change_count st + uint (change_count revision),
           change_len := change_len st + uint (changes_len revision),
           total_size := total_size st + (ri_end revision - ri_offset revision),
           dir_node_stats :=
             \<lparr>ns_count = ns_count (dir_node_stats st) + uint (dir_noderev_count revision),
              ns_size = ns_size (dir_node_stats st) + uint (dir_noderev_size revision)\<rparr>,
           file_node_stats :=
             \<lparr>ns_count = ns_count (file_node_stats st) + uint (file_noderev_count revision),
              ns_size = ns_size (file_node_stats st) + uint (file_noderev_size revision)\<rparr>,
           total_node_stats :=
             \<lparr>ns_count = ns_count (total_node_stats st)
                 + uint (dir_noderev_count revision + file_noderev_count revision),
              ns_size = ns_size (total_node_stats st)
                 + uint (dir_noderev_size revision + file_noderev_size revision)\<rparr>\<rparr>)"

text \<open>
  \<^verbatim>\<open>aggregate_stats(query->revisions, stats)\<close>, with the two stores the array points
  into.
\<close>

definition aggregate_stats ::
  "revision_info_t list \<Rightarrow> rep_stats_t list \<Rightarrow> nat list \<Rightarrow> stats_t \<Rightarrow> stats_t" where
  "aggregate_stats infos reps revs st =
     fold (\<lambda>ia st. aggregate_revision st (infos ! ia)
                     (map (\<lambda>a. reps ! a) (representations (infos ! ia))))
       revs (st\<lparr>revision_count := int (length revs)\<rparr>)"

subsection \<open>create_stats, create_query, svn_fs_fs__get_stats\<close>

definition create_stats :: stats_t where
  "create_stats =
     \<lparr>total_rep_stats = zero_representation_stats,
      file_rep_stats = zero_representation_stats,
      dir_rep_stats = zero_representation_stats,
      file_prop_rep_stats = zero_representation_stats,
      dir_prop_rep_stats = zero_representation_stats,
      total_node_stats = zero_node_stats,
      file_node_stats = zero_node_stats,
      dir_node_stats = zero_node_stats,
      revision_count = 0, st_change_count = 0, change_len = 0, total_size = 0,
      rep_size_histogram = zero_histogram,
      node_size_histogram = zero_histogram,
      added_rep_size_histogram = zero_histogram,
      added_node_size_histogram = zero_histogram,
      unused_rep_histogram = zero_histogram,
      file_histogram = zero_histogram,
      file_rep_histogram = zero_histogram,
      file_prop_histogram = zero_histogram,
      file_prop_rep_histogram = zero_histogram,
      dir_histogram = zero_histogram,
      dir_rep_histogram = zero_histogram,
      dir_prop_histogram = zero_histogram,
      dir_prop_rep_histogram = zero_histogram,
      largest_changes = initialize_largest_changes 64,
      by_extension = Map.empty\<rparr>"

text \<open>
  \<^verbatim>\<open>create_query\<close>. The argument \<open>impl\<close> is the behaviour of the cancel callback (see
  \<open>query_t\<close>).
\<close>

definition create_query ::
  "svn_fs_t \<Rightarrow> stats_t \<Rightarrow> ptr \<Rightarrow> ptr \<Rightarrow> ptr \<Rightarrow> ptr \<Rightarrow> (ptr \<Rightarrow> nat \<Rightarrow> ptr \<Rightarrow> svn_error option)
     \<Rightarrow> svn_error + query_t" where
  "create_query f st progress_fn progress_btn cancel_fn cancel_btn impl =
     (case fs_youngest_rev f of
        Inl e \<Rightarrow> Inl e
      | Inr h \<Rightarrow>
          (case fs_min_unpacked_rev f of
             Inl e \<Rightarrow> Inl e
           | Inr m \<Rightarrow>
               Inr \<lparr>fs = f, head = h, shard_size = fs_shard_size f, min_unpacked_rev = m,
                    revisions = [], stats = st,
                    progress_func = progress_fn, progress_baton = progress_btn,
                    cancel_func = cancel_fn, cancel_baton = cancel_btn,
                    info_heap = [], rep_heap = [], progress_log = [], cancel_calls = 0,
                    cancel_impl = impl\<rparr>))"

text \<open>
  \<^verbatim>\<open>svn_fs_fs__get_stats\<close> returns the error, the statistics object that \<^verbatim>\<open>*stats\<close>
  points to when it returns, and the calls it made to the progress callback.
  \<^verbatim>\<open>*stats\<close> is assigned before anything else; \<^verbatim>\<open>create_query\<close> is called with
  \<^verbatim>\<open>progress_func\<close> in the place of both the callback and its baton.
\<close>

definition svn_fs_fs__get_stats ::
  "nat \<Rightarrow> svn_fs_t \<Rightarrow> ptr \<Rightarrow> ptr \<Rightarrow> ptr \<Rightarrow> ptr \<Rightarrow> (ptr \<Rightarrow> nat \<Rightarrow> ptr \<Rightarrow> svn_error option)
     \<Rightarrow> (svn_error option \<times> stats_t \<times> (int \<times> ptr) list) option" where
  "svn_fs_fs__get_stats fuel f progress_fn progress_btn cancel_fn cancel_btn impl =
     (case create_query f create_stats progress_fn progress_fn cancel_fn cancel_btn impl of
        Inl e \<Rightarrow> Some (Some e, create_stats, [])
      | Inr query \<Rightarrow>
          (case read_revisions fuel query of
             None \<Rightarrow> None
           | Some (Some e, q) \<Rightarrow> Some (Some e, stats q, progress_log q)
           | Some (None, q) \<Rightarrow>
               Some (None,
                     aggregate_stats (info_heap q) (rep_heap q) (revisions q) (stats q),
                     progress_log q)))"

section \<open>Definitions used to state the properties\<close>

subsection \<open>Changes sections\<close>

text \<open>
  Modelled from the spec: a changed-paths section is a sequence of two-line records.
  A record is given by its two lines, neither of which holds a newline.
\<close>

definition changes_section :: "(string \<times> string) list \<Rightarrow> string" where
  "changes_section rs = concat (map (\<lambda>(l1, l2). l1 @ [newline] @ l2 @ [newline]) rs)"

definition well_formed_changes :: "(string \<times> string) list \<Rightarrow> bool" where
  "well_formed_changes rs = list_all (\<lambda>(l1, l2). newline \<notin> set l1 \<and> newline \<notin> set l2) rs"

subsection \<open>Sequences of additions to a histogram\<close>

text \<open>
  \<open>add_all_to_histogram\<close> adds a list of sizes one after the other;
  \<open>histogram_consistent\<close> says that the buckets add up to the total.
\<close>

fun add_all_to_histogram :: "histogram \<Rightarrow> 64 word list \<Rightarrow> histogram option" where
  "add_all_to_histogram h [] = Some h"
| "add_all_to_histogram h (s # ss) =
     (case add_to_histogram h s of None \<Rightarrow> None | Some h' \<Rightarrow> add_all_to_histogram h' ss)"

definition histogram_consistent :: "histogram \<Rightarrow> bool" where
  "histogram_consistent h =
     (sum_list (map hl_count (lines h)) = hl_count (total h)
      \<and> sum_list (map hl_sum (lines h)) = hl_sum (total h))"

subsection \<open>Sequences of changes\<close>

text \<open>
  \<open>add_changes\<close> calls \<^verbatim>\<open>add_change\<close> for a list of argument tuples, one after the
  other, and has a result when every call has one. \<open>sizes_descending\<close> says that the
  largest-changes list is sorted by size, largest first.
\<close>

fun add_changes ::
  "stats_t \<Rightarrow> (64 word \<times> 64 word \<times> int \<times> string \<times> rep_kind_t \<times> bool) list \<Rightarrow> stats_t option"
  where
  "add_changes st [] = Some st"
| "add_changes st ((rep_sz, expanded_sz, revision, path, k, plain_added) # cs) =
     (case add_change st rep_sz expanded_sz revision path k plain_added of
        None \<Rightarrow> None
      | Some st' \<Rightarrow> add_changes st' cs)"

definition sizes_descending :: "largest_changes_t \<Rightarrow> bool" where
  "sizes_descending lc = sorted_wrt (\<lambda>a b. a \<ge> b) (map lci_size (lc_changes lc))"

text \<open>The invariant of the list, with \<open>b\<close> telling whether an insertion was accepted.\<close>

definition lc_inv :: "bool \<Rightarrow> largest_changes_t \<Rightarrow> bool" where
  "lc_inv b lc =
     (lc_count lc = length (lc_changes lc) \<and> 0 < lc_count lc \<and> sizes_descending lc
      \<and> (if b then min_size lc = lci_size (last (lc_changes lc))
         else min_size lc = 1 \<and> list_all (\<lambda>c. lci_size c = 0) (lc_changes lc)))"

text \<open>What the histogram updates leave alone.\<close>

definition aggregate_part where
  "aggregate_part st =
     (total_rep_stats st, file_rep_stats st, dir_rep_stats st, file_prop_rep_stats st,
      dir_prop_rep_stats st, total_node_stats st, file_node_stats st, dir_node_stats st,
      revision_count st, st_change_count st, change_len st, total_size st)"

definition hist_ok :: "histogram \<Rightarrow> bool" where
  "hist_ok h = (length (lines h) = 64)"

definition stats_ok :: "stats_t \<Rightarrow> bool" where
  "stats_ok st =
     (hist_ok (rep_size_histogram st) \<and> hist_ok (node_size_histogram st)
      \<and> hist_ok (added_rep_size_histogram st) \<and> hist_ok (added_node_size_histogram st)
      \<and> hist_ok (unused_rep_histogram st)
      \<and> hist_ok (file_histogram st) \<and> hist_ok (file_rep_histogram st)
      \<and> hist_ok (file_prop_histogram st) \<and> hist_ok (file_prop_rep_histogram st)
      \<and> hist_ok (dir_histogram st) \<and> hist_ok (dir_rep_histogram st)
      \<and> hist_ok (dir_prop_histogram st) \<and> hist_ok (dir_prop_rep_histogram st)
      \<and> (\<forall>e i. by_extension st e = Some i \<longrightarrow>
            hist_ok (node_histogram i) \<and> hist_ok (rep_histogram i)))"

subsection \<open>Representations of a repository and sums over them\<close>





subsection \<open>How the query evolves\<close>

text \<open>
  The ways in which the engine changes the query: each rule is one kind of assignment
  the code makes, with what the code knows at that point.
\<close>

inductive evolves :: "query_t \<Rightarrow> query_t \<Rightarrow> bool" where
  ev_refl: "evolves q q"
| ev_trans: "evolves q q' \<Longrightarrow> evolves q' q'' \<Longrightarrow> evolves q q''"
| ev_cancel: "evolves q (q\<lparr>cancel_calls := n\<rparr>)"
| ev_progress:
    "evolves q (q\<lparr>progress_log := progress_log q @ [(r, progress_baton q)]\<rparr>)"
| ev_new_info:
    "representations info = [] \<Longrightarrow> evolves q (q\<lparr>info_heap := info_heap q @ [info]\<rparr>)"
| ev_push:
    "ia < length (info_heap q) \<Longrightarrow> ri_revision (info_heap q ! ia) = int (length (revisions q))
     \<Longrightarrow> evolves q (q\<lparr>revisions := revisions q @ [ia]\<rparr>)"
| ev_info:
    "ri_revision info' = ri_revision (info_heap q ! ia)
     \<Longrightarrow> representations info' = representations (info_heap q ! ia)
     \<Longrightarrow> evolves q (q\<lparr>info_heap := (info_heap q)[ia := info']\<rparr>)"
| ev_new_rep:
    "ref_count r = 0 \<Longrightarrow> kind r = unused_rep
     \<Longrightarrow> idx = bsearch_lower_bound (reps_of q ia) (rep_offset r) 0 (length (reps_of q ia))
     \<Longrightarrow> \<not> (idx < length (reps_of q ia) \<and> rep_offset (reps_of q ia ! idx) = rep_offset r)
     \<Longrightarrow> evolves q
           (q\<lparr>rep_heap := rep_heap q @ [r],
              info_heap := (info_heap q)
                [ia := (info_heap q ! ia)\<lparr>representations :=
                   array_insert (representations (info_heap q ! ia)) (length (rep_heap q)) idx\<rparr>]\<rparr>)"
| ev_reference:
    "k \<noteq> unused_rep
     \<Longrightarrow> evolves q (q\<lparr>rep_heap := (rep_heap q)[t := add_reference (rep_heap q ! t) k]\<rparr>)"
| ev_change:
    "add_change (stats q) rs es r p k pa = Some st \<Longrightarrow> evolves q (q\<lparr>stats := st\<rparr>)"

text \<open>
  \<open>inner q q'\<close>: the query evolved without a revision info being created or pushed.
\<close>

definition inner :: "query_t \<Rightarrow> query_t \<Rightarrow> bool" where
  "inner q q' =
     (evolves q q' \<and> revisions q' = revisions q
      \<and> map ri_revision (info_heap q') = map ri_revision (info_heap q))"

text \<open>The revision info a lookup ends with.\<close>

definition resolve_info :: "query_t \<Rightarrow> nat \<Rightarrow> int \<Rightarrow> nat option" where
  "resolve_info q ia r =
     (if ri_revision (info_heap q ! ia) \<noteq> r then array_idx (revisions q) r else Some ia)"

definition lower_bound_of :: "query_t \<Rightarrow> nat \<Rightarrow> int \<Rightarrow> nat" where
  "lower_bound_of q ia off = bsearch_lower_bound (reps_of q ia) off 0 (length (reps_of q ia))"

definition hit :: "query_t \<Rightarrow> nat \<Rightarrow> int \<Rightarrow> bool" where
  "hit q ia off =
     (lower_bound_of q ia off < length (reps_of q ia)
      \<and> rep_offset (reps_of q ia ! lower_bound_of q ia off) = off)"

definition new_rep :: "representation_t \<Rightarrow> 16 word \<Rightarrow> rep_stats_t" where
  "new_rep rep h =
     \<lparr>rep_offset = sint (r_item_index rep), rep_size = r_size rep,
      rep_expanded_size = (if r_expanded_size rep \<noteq> 0 then r_expanded_size rep else r_size rep),
      rep_revision = r_revision rep, ref_count = 0, header_size = h, kind = unused_rep\<rparr>"

definition insert_rep :: "query_t \<Rightarrow> nat \<Rightarrow> rep_stats_t \<Rightarrow> query_t" where
  "insert_rep q ia r =
     q\<lparr>rep_heap := rep_heap q @ [r],
       info_heap := (info_heap q)
         [ia := (info_heap q ! ia)\<lparr>representations :=
            array_insert (representations (info_heap q ! ia)) (length (rep_heap q))
              (lower_bound_of q ia (rep_offset r))\<rparr>]\<rparr>"

text \<open>The header size \<open>parse_representation\<close> reads for a new representation.\<close>

definition header_of :: "query_t \<Rightarrow> nat \<Rightarrow> representation_t \<Rightarrow> svn_error + 16 word" where
  "header_of q ia rep =
     (if use_log_addressing (fs q) then Inr 0
      else
        (case rev_file (info_heap q ! ia) of
           None \<Rightarrow> Inl SVN_ERR_ASSERTION_FAIL
         | Some f \<Rightarrow>
             if \<not> rf_open f then Inl Undefined_behaviour
             else if ri_offset (info_heap q ! ia) + sint (r_item_index rep) < 0
             then Inl SVN_ERR_IO
             else read_rep_header (fs q) (rf_content f)
                    (ri_offset (info_heap q ! ia) + sint (r_item_index rep))))"

text \<open>What the loop over the packed revisions keeps true.\<close>

definition packed_inv :: "query_t \<Rightarrow> int \<Rightarrow> bool" where
  "packed_inv q revision =
     (if 0 < shard_size q then int (length (revisions q)) = revision
      else revisions q = [] \<and> (revision = 0 \<or> revision < min_unpacked_rev q))"

text \<open>The index of a revision info in \<^verbatim>\<open>query->revisions\<close> is its revision.\<close>

definition revisions_indexed :: "query_t \<Rightarrow> bool" where
  "revisions_indexed q =
     (list_all (\<lambda>ia. ia < length (info_heap q)) (revisions q)
      \<and> map (\<lambda>ia. ri_revision (info_heap q ! ia)) (revisions q)
          = map int [0..<length (revisions q)])"

text \<open>
  A small repository in logical addressing mode, not sharded, with revisions 0 to
  \<open>youngest\<close>. Every rev file has 20 bytes and the same index entries (with the revision
  of the file as item revision), and every node-revision item decodes to \<open>noderev\<close>.
\<close>

definition example_fs :: "int \<Rightarrow> p2l_entry_t list \<Rightarrow> node_revision_t \<Rightarrow> svn_fs_t" where
  "example_fs youngest entries noderev =
     \<lparr>use_log_addressing = True, fs_shard_size = 0,
      fs_youngest_rev = Inr youngest, fs_min_unpacked_rev = Inr 0,
      open_pack_or_rev_file = (\<lambda>r. Inr (replicate 20 (CHR ''x''))),
      close_revision_file = (\<lambda>r. None),
      get_packed_offset = (\<lambda>r. Inr 0),
      read_rep_header = (\<lambda>c off. Inr 0),
      fs_read_noderev = (\<lambda>c. Inr noderev),
      rep_contents_dir = (\<lambda>n. Inr []),
      p2l_get_max_offset = (\<lambda>r. Inr 20),
      p2l_index_lookup = (\<lambda>base off. Inr (map (\<lambda>e. e\<lparr>pe_item_revision := base\<rparr>) entries)),
      strtoui64 = (\<lambda>s. Inr 0)\<rparr>"

text \<open>A file node-revision whose text is the representation at item 3 of revision 0.\<close>

definition example_noderev :: node_revision_t where
  "example_noderev =
     \<lparr>nr_kind = svn_node_file,
      data_rep = Some \<lparr>r_revision = 0, r_item_index = 3, r_size = 5, r_expanded_size = 9\<rparr>,
      prop_rep = None, predecessor_id = None, created_path = ''/trunk/a.c''\<rparr>"

text \<open>A node-revision item followed by a changes item.\<close>

definition example_entries :: "p2l_entry_t list" where
  "example_entries =
     [\<lparr>pe_offset = 0, pe_size = 10, pe_type = ITEM_TYPE_NODEREV, pe_item_revision = 0\<rparr>,
      \<lparr>pe_offset = 10, pe_size = 10, pe_type = ITEM_TYPE_CHANGES, pe_item_revision = 0\<rparr>]"

text \<open>A cancel callback that never cancels, and one that cancels from its second call on.\<close>

definition never_cancel :: "ptr \<Rightarrow> nat \<Rightarrow> ptr \<Rightarrow> svn_error option" where
  "never_cancel f n b = None"

definition cancel_second :: "ptr \<Rightarrow> nat \<Rightarrow> ptr \<Rightarrow> svn_error option" where
  "cancel_second f n b = (if 1 \<le> n then Some SVN_ERR_CANCELLED else None)"

subsection \<open>More example data\<close>




subsection \<open>The representation registry as a sorted vector\<close>

text \<open>A vector of representations in strictly ascending order of their offsets.\<close>

definition offsets_ascending :: "rep_stats_t list \<Rightarrow> bool" where
  "offsets_ascending xs = sorted_wrt (<) (map rep_offset xs)"

text \<open>
  A vector of addresses into the heap of representations: every address is one of the
  heap, and the representations they point to are in ascending order of offset.
\<close>

definition vector_ok :: "rep_stats_t list \<Rightarrow> nat list \<Rightarrow> bool" where
  "vector_ok heap rs =
     (offsets_ascending (map (\<lambda>a. heap ! a) rs) \<and> list_all (\<lambda>a. a < length heap) rs)"

text \<open>Every revision info has such a vector in \<^verbatim>\<open>info->representations\<close>.\<close>

definition reps_sorted :: "query_t \<Rightarrow> bool" where
  "reps_sorted q =
     list_all (\<lambda>info. vector_ok (rep_heap q) (representations info)) (info_heap q)"

text \<open>Two node-revision items that fill the 20 bytes of a rev file.\<close>

definition two_noderev_entries :: "p2l_entry_t list" where
  "two_noderev_entries =
     [\<lparr>pe_offset = 0, pe_size = 10, pe_type = ITEM_TYPE_NODEREV, pe_item_revision = 0\<rparr>,
      \<lparr>pe_offset = 10, pe_size = 10, pe_type = ITEM_TYPE_NODEREV, pe_item_revision = 0\<rparr>]"

text \<open>
  The query after a representation \<open>r\<close> was inserted for the revision info \<open>ib\<close> and
  the new element of the heap was overwritten with \<open>r1\<close>.
\<close>

definition inserted :: "query_t \<Rightarrow> nat \<Rightarrow> rep_stats_t \<Rightarrow> rep_stats_t \<Rightarrow> query_t" where
  "inserted q ib r r1 =
     (insert_rep q ib r)\<lparr>rep_heap := (rep_heap q @ [r])[length (rep_heap q) := r1]\<rparr>"

subsection \<open>Counting references\<close>



section \<open>Properties\<close>

declare shift_loop.simps [simp del]

subsection \<open>The change count\<close>

lemma count_lines_eq: "count_lines cs n = n + count_list cs newline"
  by (induction cs arbitrary: n) auto

lemma count_list_no_newline: "newline \<notin> set l \<Longrightarrow> count_list l newline = 0"
  by (induction l) auto

lemma count_list_changes_section:
  "well_formed_changes rs \<Longrightarrow> count_list (changes_section rs) newline = 2 * length rs"
  by (induction rs) (auto simp: well_formed_changes_def changes_section_def count_list_no_newline)

text \<open>
  Claim C9. For every byte string \<open>b\<close>, \<open>get_change_count\<close> over all of \<open>b\<close> is the
  number of newline bytes in \<open>b\<close> divided by 2; for a well-formed changes section of
  \<open>n\<close> two-line records it is \<open>n\<close>, and \<open>n * 2\<close> is the number of newlines.
\<close>

theorem get_change_count_law:
  "get_change_count b (length b) = count_list b newline div 2
   \<and> (well_formed_changes rs \<longrightarrow>
        get_change_count (changes_section rs) (length (changes_section rs)) = length rs
        \<and> length rs * 2 = count_list (changes_section rs) newline)"
  by (simp add: get_change_count_def count_lines_eq count_list_changes_section)

theorem get_change_count_law_witness:
  "well_formed_changes [(''M /trunk/a'', ''''), (''A /trunk/b'', ''1 /trunk/a'')]
   \<and> get_change_count
       (changes_section [(''M /trunk/a'', ''''), (''A /trunk/b'', ''1 /trunk/a'')])
       (length (changes_section [(''M /trunk/a'', ''''), (''A /trunk/b'', ''1 /trunk/a'')])) = 2"
proof -
  have wf: "well_formed_changes [(''M /trunk/a'', ''''), (''A /trunk/b'', ''1 /trunk/a'')]"
    by (simp add: well_formed_changes_def newline_def)
  from get_change_count_law[of "[]" "[(''M /trunk/a'', ''''), (''A /trunk/b'', ''1 /trunk/a'')]"] wf
  show ?thesis by simp
qed

subsection \<open>Histograms\<close>

lemma shift_loop_spec:
  "shift \<le> 63 \<Longrightarrow> (\<forall>j < shift. 2 ^ j \<le> sz) \<Longrightarrow> sz < 2 ^ 62 \<Longrightarrow>
   \<exists>k. shift_loop sz shift = Some k \<and> k \<le> 62 \<and> sz < 2 ^ k \<and> (\<forall>j < k. 2 ^ j \<le> sz)"
proof (induction sz shift rule: shift_loop.induct)
  case (1 sz shift)
  show ?case
  proof (cases "2 ^ shift \<le> sz")
    case True
    have lt: "shift < 62"
    proof (rule ccontr)
      assume "\<not> shift < 62"
      then have "(2::int) ^ 62 \<le> 2 ^ shift" by (intro power_increasing) auto
      with True "1.prems"(3) show False by linarith
    qed
    have all: "\<forall>j < shift + 1. 2 ^ j \<le> sz"
      using True "1.prems"(2) by (auto simp: less_Suc_eq)
    from lt have "\<not> 63 \<le> shift" "shift + 1 \<le> 63" by auto
    from "1.IH"[OF this(1) True this(2) all "1.prems"(3)]
    show ?thesis using lt True by (subst shift_loop.simps) auto
  next
    case False
    have "shift \<le> 62"
    proof (rule ccontr)
      assume "\<not> shift \<le> 62"
      then have "62 < shift" by simp
      with "1.prems"(2) have "(2::int) ^ 62 \<le> sz" by blast
      with "1.prems"(3) show False by linarith
    qed
    then show ?thesis using False "1.prems" by (subst shift_loop.simps) auto
  qed
qed

lemma shift_loop_Some:
  assumes "sz < 2 ^ 62"
  shows "\<exists>k. shift_loop sz 0 = Some k \<and> k \<le> 62 \<and> sz < 2 ^ k \<and> (\<forall>j < k. 2 ^ j \<le> sz)"
  using shift_loop_spec[of 0 sz] assms by simp

lemma shift_loop_big: "2 ^ 62 \<le> sz \<Longrightarrow> shift \<le> 63 \<Longrightarrow> shift_loop sz shift = None"
proof (induction sz shift rule: shift_loop.induct)
  case (1 sz shift)
  show ?case
  proof (cases "63 \<le> shift")
    case True then show ?thesis by (subst shift_loop.simps) simp
  next
    case False
    then have "shift \<le> 62" by simp
    then have "(2::int) ^ shift \<le> 2 ^ 62" by (intro power_increasing) auto
    with "1.prems" have le: "2 ^ shift \<le> sz" by linarith
    from "1.IH"[OF False le "1.prems"(1)] False have "shift_loop sz (shift + 1) = None" by simp
    then show ?thesis using False le by (subst shift_loop.simps) simp
  qed
qed

lemma sum_list_update_line:
  "k < length ls \<Longrightarrow>
   sum_list (map hl_count (ls[k := add_line (ls ! k) v])) = sum_list (map hl_count ls) + 1
   \<and> sum_list (map hl_sum (ls[k := add_line (ls ! k) v])) = sum_list (map hl_sum ls) + v"
proof (induction ls arbitrary: k)
  case Nil then show ?case by simp
next
  case (Cons a ls)
  then show ?case by (cases k) (auto simp: add_line_def)
qed

lemma add_to_histogram_Some:
  assumes "sint s < 2 ^ 62" "length (lines h) = 64"
  shows "\<exists>k. k < 64 \<and> sint s < 2 ^ k \<and> (\<forall>j < k. 2 ^ j \<le> sint s)
           \<and> add_to_histogram h s =
               Some \<lparr>total = add_line (total h) (sint s),
                     lines = (lines h)[k := add_line (lines h ! k) (sint s)]\<rparr>"
proof -
  from shift_loop_Some[OF assms(1)] obtain k where
    k: "shift_loop (sint s) 0 = Some k" "k \<le> 62" "sint s < 2 ^ k" "\<forall>j < k. 2 ^ j \<le> sint s"
    by blast
  then show ?thesis using assms(2) by (intro exI[of _ k]) (simp add: add_to_histogram_def)
qed

lemma add_to_histogram_consistent:
  assumes "add_to_histogram h s = Some h'" "histogram_consistent h"
  shows "histogram_consistent h' \<and> length (lines h') = length (lines h)"
  using assms sum_list_update_line[of _ "lines h" "sint s"]
  by (auto simp: add_to_histogram_def histogram_consistent_def add_line_def
           split: option.splits if_splits)

lemma add_all_consistent:
  "list_all (\<lambda>s. sint s < 2 ^ 62) ss \<Longrightarrow> length (lines h) = 64 \<Longrightarrow> histogram_consistent h \<Longrightarrow>
   \<exists>h'. add_all_to_histogram h ss = Some h' \<and> length (lines h') = 64 \<and> histogram_consistent h'"
proof (induction ss arbitrary: h)
  case Nil then show ?case by simp
next
  case (Cons s ss)
  from Cons.prems have s: "sint s < 2 ^ 62" by simp
  from add_to_histogram_Some[OF s Cons.prems(2)] obtain h1 where h1: "add_to_histogram h s = Some h1"
    by blast
  from add_to_histogram_consistent[OF h1 Cons.prems(3)] Cons.prems(2)
  have "histogram_consistent h1" "length (lines h1) = 64" by auto
  from Cons.IH[OF _ this(2) this(1)] Cons.prems(1) h1 show ?case by simp
qed

lemma zero_histogram_consistent: "histogram_consistent zero_histogram \<and> length (lines zero_histogram) = 64"
  by (simp add: histogram_consistent_def zero_histogram_def zero_line_def sum_list_replicate)

text \<open>
  Claim C8, for the sizes at which the loop of \<open>add_to_histogram\<close> is defined. For
  every size \<open>s\<close> with \<open>0 \<le> s < 2 ^ 62\<close>, \<open>add_to_histogram\<close> adds 1 to the count
  and \<open>s\<close> to the sum of the total and of exactly the bucket \<open>k\<close>, the smallest \<open>k\<close>
  with \<open>2 ^ k > s\<close> (bucket 0 for \<open>s = 0\<close>); and after any sequence of additions of
  such sizes to the empty histogram the bucket counts add up to the total count and the
  bucket sums to the total sum.
\<close>

theorem add_to_histogram_law:
  "(0 \<le> sint s \<and> sint s < 2 ^ 62 \<and> length (lines h) = 64 \<longrightarrow>
      (\<exists>k. k < 64 \<and> sint s < 2 ^ k \<and> (\<forall>j < k. 2 ^ j \<le> sint s)
           \<and> (s = 0 \<longrightarrow> k = 0)
           \<and> add_to_histogram h s =
               Some \<lparr>total = \<lparr>hl_count = hl_count (total h) + 1,
                              hl_sum = hl_sum (total h) + sint s\<rparr>,
                     lines = (lines h)[k := \<lparr>hl_count = hl_count (lines h ! k) + 1,
                                             hl_sum = hl_sum (lines h ! k) + sint s\<rparr>]\<rparr>))
   \<and> (list_all (\<lambda>s. sint s < 2 ^ 62) ss \<longrightarrow>
        (\<exists>h'. add_all_to_histogram zero_histogram ss = Some h'
              \<and> sum_list (map hl_count (lines h')) = hl_count (total h')
              \<and> sum_list (map hl_sum (lines h')) = hl_sum (total h')))"
proof (intro conjI impI)
  assume a: "0 \<le> sint s \<and> sint s < 2 ^ 62 \<and> length (lines h) = 64"
  from add_to_histogram_Some[of s h] a obtain k where
    k: "k < 64" "sint s < 2 ^ k" "\<forall>j < k. 2 ^ j \<le> sint s"
       "add_to_histogram h s = Some \<lparr>total = add_line (total h) (sint s),
                     lines = (lines h)[k := add_line (lines h ! k) (sint s)]\<rparr>"
    by blast
  have "s = 0 \<longrightarrow> k = 0"
  proof
    assume "s = 0"
    show "k = 0"
    proof (rule ccontr)
      assume "k \<noteq> 0"
      then have "(2::int) ^ 0 \<le> sint s" using k(3) by blast
      with \<open>s = 0\<close> show False by simp
    qed
  qed
  with k show "\<exists>k. k < 64 \<and> sint s < 2 ^ k \<and> (\<forall>j < k. 2 ^ j \<le> sint s)
           \<and> (s = 0 \<longrightarrow> k = 0)
           \<and> add_to_histogram h s =
               Some \<lparr>total = \<lparr>hl_count = hl_count (total h) + 1,
                              hl_sum = hl_sum (total h) + sint s\<rparr>,
                     lines = (lines h)[k := \<lparr>hl_count = hl_count (lines h ! k) + 1,
                                             hl_sum = hl_sum (lines h ! k) + sint s\<rparr>]\<rparr>"
    by (intro exI[of _ k]) (simp add: add_line_def)
next
  assume "list_all (\<lambda>s. sint s < 2 ^ 62) ss"
  from add_all_consistent[OF this] zero_histogram_consistent
  show "\<exists>h'. add_all_to_histogram zero_histogram ss = Some h'
              \<and> sum_list (map hl_count (lines h')) = hl_count (total h')
              \<and> sum_list (map hl_sum (lines h')) = hl_sum (total h')"
    by (auto simp: histogram_consistent_def)
qed

theorem add_to_histogram_law_witness:
  "(\<exists>k. k < 64 \<and> sint (10 :: 64 word) < 2 ^ k \<and> (\<forall>j < k. 2 ^ j \<le> sint (10 :: 64 word))
        \<and> add_to_histogram zero_histogram 10 =
            Some \<lparr>total = \<lparr>hl_count = hl_count (total zero_histogram) + 1,
                           hl_sum = hl_sum (total zero_histogram) + sint (10 :: 64 word)\<rparr>,
                  lines = (lines zero_histogram)
                    [k := \<lparr>hl_count = hl_count (lines zero_histogram ! k) + 1,
                           hl_sum = hl_sum (lines zero_histogram ! k) + sint (10 :: 64 word)\<rparr>]\<rparr>)
   \<and> (\<exists>h'. add_all_to_histogram zero_histogram [10, 0] = Some h'
            \<and> sum_list (map hl_count (lines h')) = hl_count (total h')
            \<and> sum_list (map hl_sum (lines h')) = hl_sum (total h'))"
proof -
  have h: "0 \<le> sint (10 :: 64 word) \<and> sint (10 :: 64 word) < 2 ^ 62
           \<and> length (lines zero_histogram) = 64"
    by (simp add: zero_histogram_def)
  have l: "list_all (\<lambda>s. sint s < 2 ^ 62) [10, 0 :: 64 word]" by simp
  from add_to_histogram_law[of 10 zero_histogram "[10, 0]"] h l show ?thesis by blast
qed

text \<open>
  For the size \<open>2 ^ 62\<close> the bucket of the claim is 63, but the loop
  \<^verbatim>\<open>while (((apr_int64_t)(1) << shift) <= size) shift++;\<close> has to evaluate
  \<^verbatim>\<open>(apr_int64_t)1 << 63\<close> to leave bucket 62 behind: the shift overflows the signed
  type, and the function has no defined result. No size reaches bucket 63.
\<close>

theorem add_to_histogram_counterexample:
  "0 \<le> sint (2 ^ 62 :: 64 word) \<and> add_to_histogram zero_histogram (2 ^ 62) = None"
proof -
  have "sint (2 ^ 62 :: 64 word) = 2 ^ 62" by simp
  then show ?thesis using shift_loop_big[of "2 ^ 62" 0] by (simp add: add_to_histogram_def)
qed

subsection \<open>The largest changes\<close>

lemma insertion_loop_nth:
  "j < length cs \<Longrightarrow> insertion_loop cs s j = (cs', i) \<Longrightarrow>
   i \<le> j \<and> length cs' = length cs
   \<and> (\<forall>k < length cs. cs' ! k = (if k \<le> i then cs ! k else if k \<le> j then cs ! (k - 1) else cs ! k))
   \<and> (\<forall>k. i \<le> k \<and> k < j \<longrightarrow> lci_size (cs ! k) < s)
   \<and> (0 < i \<longrightarrow> s \<le> lci_size (cs ! (i - 1)))"
proof (induction j arbitrary: cs cs' i)
  case 0
  then show ?case by auto
next
  case (Suc m)
  show ?case
  proof (cases "lci_size (cs ! m) \<ge> s")
    case True
    with Suc.prems show ?thesis by auto
  next
    case False
    let ?cs1 = "cs[Suc m := cs ! m]"
    from False Suc.prems have rec: "insertion_loop ?cs1 s m = (cs', i)" by simp
    from Suc.prems have "m < length ?cs1" by simp
    from Suc.IH[OF this rec] have
      ih: "i \<le> m" "length cs' = length ?cs1"
          "\<forall>k < length ?cs1. cs' ! k = (if k \<le> i then ?cs1 ! k else if k \<le> m then ?cs1 ! (k - 1) else ?cs1 ! k)"
          "\<forall>k. i \<le> k \<and> k < m \<longrightarrow> lci_size (?cs1 ! k) < s"
          "0 < i \<longrightarrow> s \<le> lci_size (?cs1 ! (i - 1))"
      by blast+
    have a: "i \<le> Suc m" using ih(1) by simp
    have b: "length cs' = length cs" using ih(2) by simp
    have c: "\<forall>k < length cs. cs' ! k = (if k \<le> i then cs ! k else if k \<le> Suc m then cs ! (k - 1) else cs ! k)"
    proof (intro allI impI)
      fix k assume k: "k < length cs"
      then have "cs' ! k = (if k \<le> i then ?cs1 ! k else if k \<le> m then ?cs1 ! (k - 1) else ?cs1 ! k)"
        using ih(3) by simp
      then show "cs' ! k = (if k \<le> i then cs ! k else if k \<le> Suc m then cs ! (k - 1) else cs ! k)"
        using ih(1) k Suc.prems(1) by (cases "k = Suc m") (auto simp: nth_list_update)
    qed
    have d: "\<forall>k. i \<le> k \<and> k < Suc m \<longrightarrow> lci_size (cs ! k) < s"
    proof (intro allI impI)
      fix k assume k: "i \<le> k \<and> k < Suc m"
      show "lci_size (cs ! k) < s"
      proof (cases "k = m")
        case True with False show ?thesis by simp
      next
        case False
        with k have "i \<le> k \<and> k < m" by simp
        with ih(4) have "lci_size (?cs1 ! k) < s" by blast
        then show ?thesis using k by (simp add: nth_list_update)
      qed
    qed
    have e: "0 < i \<longrightarrow> s \<le> lci_size (cs ! (i - 1))"
      using ih(5) ih(1) by (auto simp: nth_list_update)
    from a b c d e show ?thesis by blast
  qed
qed

text \<open>The list after an accepted insertion, entry by entry.\<close>

lemma identify_largest_accept:
  assumes "min_size lc \<le> s" "lc_count lc = length (lc_changes lc)" "0 < lc_count lc"
  shows "\<exists>lc' i. identify_largest lc s r p = Some lc' \<and> i < lc_count lc
          \<and> lc_count lc' = lc_count lc \<and> length (lc_changes lc') = length (lc_changes lc)
          \<and> min_size lc' = lci_size (lc_changes lc' ! (lc_count lc - 1))
          \<and> (\<forall>k < length (lc_changes lc). lc_changes lc' ! k =
                (if k < i then lc_changes lc ! k
                 else if k = i then \<lparr>lci_size = s, lci_revision = r, lci_path = p\<rparr>
                 else lc_changes lc ! (k - 1)))
          \<and> (\<forall>k. i \<le> k \<and> k < lc_count lc - 1 \<longrightarrow> lci_size (lc_changes lc ! k) < s)
          \<and> (0 < i \<longrightarrow> s \<le> lci_size (lc_changes lc ! (i - 1)))"
proof -
  let ?n = "lc_count lc"
  let ?info = "\<lparr>lci_size = s, lci_revision = r, lci_path = p\<rparr>"
  let ?cs0 = "(lc_changes lc)[?n - 1 := ?info]"
  obtain cs1 i where loop: "insertion_loop ?cs0 s (?n - 1) = (cs1, i)" by force
  have len0: "?n - 1 < length ?cs0" using assms by simp
  from insertion_loop_nth[OF len0 loop] have
    r: "i \<le> ?n - 1" "length cs1 = length ?cs0"
       "\<forall>k < length ?cs0. cs1 ! k = (if k \<le> i then ?cs0 ! k else if k \<le> ?n - 1 then ?cs0 ! (k - 1) else ?cs0 ! k)"
       "\<forall>k. i \<le> k \<and> k < ?n - 1 \<longrightarrow> lci_size (?cs0 ! k) < s"
       "0 < i \<longrightarrow> s \<le> lci_size (?cs0 ! (i - 1))"
    by blast+
  let ?lc' = "lc\<lparr>min_size := lci_size (cs1[i := ?info] ! (?n - 1)), lc_changes := cs1[i := ?info]\<rparr>"
  have res: "identify_largest lc s r p = Some ?lc'"
    using assms loop by (simp add: identify_largest_def Let_def)
  have nth: "\<forall>k < length (lc_changes lc). lc_changes ?lc' ! k =
                (if k < i then lc_changes lc ! k
                 else if k = i then ?info
                 else lc_changes lc ! (k - 1))"
  proof (intro allI impI)
    fix k assume k: "k < length (lc_changes lc)"
    then have "cs1 ! k = (if k \<le> i then ?cs0 ! k else if k \<le> ?n - 1 then ?cs0 ! (k - 1) else ?cs0 ! k)"
      using r(3) by simp
    then show "lc_changes ?lc' ! k =
                (if k < i then lc_changes lc ! k
                 else if k = i then ?info
                 else lc_changes lc ! (k - 1))"
      using k r(1) r(2) assms(2) by (auto simp: nth_list_update)
  qed
  have small: "\<forall>k. i \<le> k \<and> k < ?n - 1 \<longrightarrow> lci_size (lc_changes lc ! k) < s"
    using r(4) by (auto simp: nth_list_update)
  have big: "0 < i \<longrightarrow> s \<le> lci_size (lc_changes lc ! (i - 1))"
    using r(5) r(1) by (auto simp: nth_list_update)
  have "i < ?n" using r(1) assms(3) by simp
  with res nth small big r(2) show ?thesis
    by (intro exI[of _ ?lc'] exI[of _ i]) simp
qed

lemma identify_largest_reject:
  "s < min_size lc \<Longrightarrow> identify_largest lc s r p = Some lc"
  by (simp add: identify_largest_def)

lemma lc_inv_step:
  assumes inv: "lc_inv b lc" and res: "identify_largest lc s r p = Some lc'"
  shows "lc_inv (b \<or> 1 \<le> s) lc' \<and> lc_count lc' = lc_count lc"
proof (cases "min_size lc \<le> s")
  case False
  then have same: "lc' = lc" using res by (simp add: identify_largest_def)
  have "b \<or> \<not> 1 \<le> s" using False inv by (auto simp: lc_inv_def split: if_splits)
  then show ?thesis using inv same by (auto simp: lc_inv_def)
next
  case True
  let ?cs = "lc_changes lc"
  let ?n = "lc_count lc"
  from inv have n: "?n = length ?cs" "0 < ?n" and sorted: "sizes_descending lc"
    by (auto simp: lc_inv_def)
  from identify_largest_accept[OF True n, of r p] res obtain i where
    i: "i < ?n" "lc_count lc' = ?n" "length (lc_changes lc') = length ?cs"
       "min_size lc' = lci_size (lc_changes lc' ! (?n - 1))"
       "\<forall>k < length ?cs. lc_changes lc' ! k =
                (if k < i then ?cs ! k
                 else if k = i then \<lparr>lci_size = s, lci_revision = r, lci_path = p\<rparr>
                 else ?cs ! (k - 1))"
       "\<forall>k. i \<le> k \<and> k < ?n - 1 \<longrightarrow> lci_size (?cs ! k) < s"
       "0 < i \<longrightarrow> s \<le> lci_size (?cs ! (i - 1))"
    by auto
  have desc: "\<forall>a b. a < b \<and> b < length ?cs \<longrightarrow> lci_size (?cs ! b) \<le> lci_size (?cs ! a)"
    using sorted by (auto simp: sizes_descending_def sorted_wrt_iff_nth_less)
  have desc_le: "\<forall>a b. a \<le> b \<and> b < length ?cs \<longrightarrow> lci_size (?cs ! b) \<le> lci_size (?cs ! a)"
  proof (intro allI impI)
    fix a b assume "a \<le> b \<and> b < length ?cs"
    then show "lci_size (?cs ! b) \<le> lci_size (?cs ! a)" using desc by (cases "a = b") auto
  qed
  have "sizes_descending lc'"
    unfolding sizes_descending_def sorted_wrt_iff_nth_less
  proof (intro allI impI)
    fix a c assume ac: "a < c" and "c < length (map lci_size (lc_changes lc'))"
    then have c: "c < length ?cs" using i(3) by simp
    with ac have a: "a < length ?cs" by simp
    have va: "lc_changes lc' ! a = (if a < i then ?cs ! a
                 else if a = i then \<lparr>lci_size = s, lci_revision = r, lci_path = p\<rparr>
                 else ?cs ! (a - 1))" using i(5) a by simp
    have vc: "lc_changes lc' ! c = (if c < i then ?cs ! c
                 else if c = i then \<lparr>lci_size = s, lci_revision = r, lci_path = p\<rparr>
                 else ?cs ! (c - 1))" using i(5) c by simp
    have "lci_size (lc_changes lc' ! c) \<le> lci_size (lc_changes lc' ! a)"
    proof (cases "c < i")
      case True
      then show ?thesis using va vc ac desc c by auto
    next
      case ci: False
      show ?thesis
      proof (cases "c = i")
        case True
        then have "a < i" using ac by simp
        then have "a \<le> i - 1 \<and> i - 1 < length ?cs" using True c by auto
        then have "lci_size (?cs ! (i - 1)) \<le> lci_size (?cs ! a)" using desc_le by blast
        moreover have "s \<le> lci_size (?cs ! (i - 1))" using i(7) \<open>a < i\<close> by auto
        ultimately show ?thesis using va vc True \<open>a < i\<close> by simp
      next
        case False
        with ci have gt: "i < c" by simp
        then have c1: "i \<le> c - 1 \<and> c - 1 < ?n - 1" using c n by auto
        then have small: "lci_size (?cs ! (c - 1)) < s" using i(6) by blast
        show ?thesis
        proof (cases "a < i")
          case True
          then have "a \<le> c - 1 \<and> c - 1 < length ?cs" using gt c by auto
          then have "lci_size (?cs ! (c - 1)) \<le> lci_size (?cs ! a)" using desc_le by blast
          then show ?thesis using va vc True gt by simp
        next
          case ai: False
          show ?thesis
          proof (cases "a = i")
            case True
            then show ?thesis using va vc gt small by simp
          next
            case False
            with ai have "i < a" by simp
            then have "a - 1 \<le> c - 1 \<and> c - 1 < length ?cs" using ac c by auto
            then have "lci_size (?cs ! (c - 1)) \<le> lci_size (?cs ! (a - 1))" using desc_le by blast
            then show ?thesis using va vc gt \<open>i < a\<close> by simp
          qed
        qed
      qed
    qed
    then show "map lci_size (lc_changes lc') ! a \<ge> map lci_size (lc_changes lc') ! c"
      using a c i(3) by simp
  qed
  moreover have "min_size lc' = lci_size (last (lc_changes lc'))"
  proof -
    have "lc_changes lc' \<noteq> []" using i(3) n by auto
    then have "last (lc_changes lc') = lc_changes lc' ! (?n - 1)"
      using i(3) n by (simp add: last_conv_nth)
    then show ?thesis using i(4) by simp
  qed
  moreover have "b \<or> 1 \<le> s"
    using True inv by (auto simp: lc_inv_def split: if_splits)
  ultimately show ?thesis using i(2) i(3) n by (simp add: lc_inv_def)
qed

lemma global_histograms_frame:
  "global_histograms st rs es pa = Some st' \<Longrightarrow>
   largest_changes st' = largest_changes st \<and> aggregate_part st' = aggregate_part st"
  by (auto simp: global_histograms_def aggregate_part_def Let_def split: Option.bind_splits if_splits)

lemma type_histograms_frame:
  "type_histograms st rs es k = Some st' \<Longrightarrow>
   largest_changes st' = largest_changes st \<and> aggregate_part st' = aggregate_part st"
  by (cases k) (auto simp: type_histograms_def aggregate_part_def split: Option.bind_splits)

lemma extension_histograms_frame:
  "extension_histograms st rs es p = Some st' \<Longrightarrow>
   largest_changes st' = largest_changes st \<and> aggregate_part st' = aggregate_part st"
  by (auto simp: extension_histograms_def aggregate_part_def Let_def split: Option.bind_splits)

lemma add_change_largest:
  assumes "add_change st rs es r p k pa = Some st'"
  shows "identify_largest (largest_changes st) (sint rs) r p = Some (largest_changes st')
         \<and> aggregate_part st' = aggregate_part st"
proof -
  from assms obtain lc st1 st2 where
    lc: "identify_largest (largest_changes st) (sint rs) r p = Some lc" and
    g: "global_histograms (st\<lparr>largest_changes := lc\<rparr>) rs es pa = Some st1" and
    t: "type_histograms st1 rs es k = Some st2" and
    e: "(if k = file_rep then extension_histograms st2 rs es p else Some st2) = Some st'"
    by (auto simp: add_change_def split: Option.bind_splits)
  from global_histograms_frame[OF g] have 1: "largest_changes st1 = lc" "aggregate_part st1 = aggregate_part st"
    by (auto simp: aggregate_part_def)
  from type_histograms_frame[OF t] 1 have 2: "largest_changes st2 = lc" "aggregate_part st2 = aggregate_part st"
    by auto
  from e 2 extension_histograms_frame[of st2 rs es p st'] have "largest_changes st' = lc" "aggregate_part st' = aggregate_part st"
    by (auto split: if_splits)
  with lc show ?thesis by simp
qed


lemma add_to_histogram_ok:
  "hist_ok h \<Longrightarrow> sint s < 2 ^ 62 \<Longrightarrow> \<exists>h'. add_to_histogram h s = Some h' \<and> hist_ok h'"
  using add_to_histogram_Some[of s h] by (auto simp: hist_ok_def)

lemma global_histograms_total:
  assumes "stats_ok st" "sint rs < 2 ^ 62" "sint es < 2 ^ 62"
  shows "\<exists>st'. global_histograms st rs es pa = Some st' \<and> stats_ok st'"
proof -
  from assms add_to_histogram_ok obtain h1 h2 h3 h4 where
    "add_to_histogram (rep_size_histogram st) rs = Some h1" "hist_ok h1"
    "add_to_histogram (node_size_histogram st) es = Some h2" "hist_ok h2"
    "add_to_histogram (added_rep_size_histogram st) rs = Some h3" "hist_ok h3"
    "add_to_histogram (added_node_size_histogram st) es = Some h4" "hist_ok h4"
    unfolding stats_ok_def by metis
  then show ?thesis using assms(1)
    by (cases pa) (simp_all add: global_histograms_def stats_ok_def)
qed

lemma type_histograms_total:
  assumes "stats_ok st" "sint rs < 2 ^ 62" "sint es < 2 ^ 62"
  shows "\<exists>st'. type_histograms st rs es k = Some st' \<and> stats_ok st'"
proof -
  have ok: "\<And>h s. hist_ok h \<Longrightarrow> sint s < 2 ^ 62 \<Longrightarrow> \<exists>h'. add_to_histogram h s = Some h' \<and> hist_ok h'"
    by (rule add_to_histogram_ok)
  show ?thesis
  proof (cases k)
    case unused_rep
    from ok[of "unused_rep_histogram st" rs] assms obtain h where
      "add_to_histogram (unused_rep_histogram st) rs = Some h" "hist_ok h"
      by (auto simp: stats_ok_def)
    then show ?thesis using assms(1) unused_rep by (simp add: type_histograms_def stats_ok_def)
  next
    case dir_property_rep
    from ok[of "dir_prop_rep_histogram st" rs] ok[of "dir_prop_histogram st" es] assms obtain h h' where
      "add_to_histogram (dir_prop_rep_histogram st) rs = Some h" "hist_ok h"
      "add_to_histogram (dir_prop_histogram st) es = Some h'" "hist_ok h'"
      by (auto simp: stats_ok_def)
    then show ?thesis using assms(1) dir_property_rep by (simp add: type_histograms_def stats_ok_def)
  next
    case file_property_rep
    from ok[of "file_prop_rep_histogram st" rs] ok[of "file_prop_histogram st" es] assms obtain h h' where
      "add_to_histogram (file_prop_rep_histogram st) rs = Some h" "hist_ok h"
      "add_to_histogram (file_prop_histogram st) es = Some h'" "hist_ok h'"
      by (auto simp: stats_ok_def)
    then show ?thesis using assms(1) file_property_rep by (simp add: type_histograms_def stats_ok_def)
  next
    case dir_rep
    from ok[of "dir_rep_histogram st" rs] ok[of "dir_histogram st" es] assms obtain h h' where
      "add_to_histogram (dir_rep_histogram st) rs = Some h" "hist_ok h"
      "add_to_histogram (dir_histogram st) es = Some h'" "hist_ok h'"
      by (auto simp: stats_ok_def)
    then show ?thesis using assms(1) dir_rep by (simp add: type_histograms_def stats_ok_def)
  next
    case file_rep
    from ok[of "file_rep_histogram st" rs] ok[of "file_histogram st" es] assms obtain h h' where
      "add_to_histogram (file_rep_histogram st) rs = Some h" "hist_ok h"
      "add_to_histogram (file_histogram st) es = Some h'" "hist_ok h'"
      by (auto simp: stats_ok_def)
    then show ?thesis using assms(1) file_rep by (simp add: type_histograms_def stats_ok_def)
  qed
qed

lemma zero_histogram_ok: "hist_ok zero_histogram"
  by (simp add: hist_ok_def zero_histogram_def)

lemma extension_histograms_total:
  assumes "stats_ok st" "sint rs < 2 ^ 62" "sint es < 2 ^ 62"
  shows "\<exists>st'. extension_histograms st rs es p = Some st' \<and> stats_ok st'"
proof -
  let ?ext = "extension_of p"
  let ?info = "(case by_extension st ?ext of
                    None \<Rightarrow> \<lparr>extension = ?ext, node_histogram = zero_histogram,
                              rep_histogram = zero_histogram\<rparr>
                  | Some info \<Rightarrow> info)"
  have "hist_ok (node_histogram ?info) \<and> hist_ok (rep_histogram ?info)"
    using assms(1) zero_histogram_ok by (auto simp: stats_ok_def split: option.splits)
  with add_to_histogram_ok assms obtain nh rh where
    "add_to_histogram (node_histogram ?info) es = Some nh" "hist_ok nh"
    "add_to_histogram (rep_histogram ?info) rs = Some rh" "hist_ok rh"
    by metis
  then show ?thesis using assms(1)
    by (simp add: extension_histograms_def stats_ok_def Let_def)
qed

lemma identify_largest_total:
  "lc_inv b lc \<Longrightarrow> \<exists>lc'. identify_largest lc s r p = Some lc'"
  using identify_largest_accept[of lc s r p] identify_largest_reject[of s lc r p]
  by (cases "min_size lc \<le> s") (auto simp: lc_inv_def)

lemma add_change_total:
  assumes "stats_ok st" "lc_inv b (largest_changes st)" "sint rs < 2 ^ 62" "sint es < 2 ^ 62"
  shows "\<exists>st'. add_change st rs es r p k pa = Some st' \<and> stats_ok st'"
proof -
  from identify_largest_total[OF assms(2)] obtain lc where
    lc: "identify_largest (largest_changes st) (sint rs) r p = Some lc" by blast
  have "stats_ok (st\<lparr>largest_changes := lc\<rparr>)" using assms(1) by (simp add: stats_ok_def)
  from global_histograms_total[OF this assms(3,4)] obtain st1 where
    g: "global_histograms (st\<lparr>largest_changes := lc\<rparr>) rs es pa = Some st1" "stats_ok st1" by blast
  from type_histograms_total[OF g(2) assms(3,4)] obtain st2 where
    t: "type_histograms st1 rs es k = Some st2" "stats_ok st2" by blast
  from extension_histograms_total[OF t(2) assms(3,4)] obtain st3 where
    e: "extension_histograms st2 rs es p = Some st3" "stats_ok st3" by blast
  show ?thesis using lc g t e by (simp add: add_change_def)
qed

lemma sorted_replicate: "sorted_wrt (\<lambda>a b. (b::int) \<le> a) (replicate n x)"
  by (simp add: sorted_wrt_iff_nth_less)

lemma initialize_largest_changes_inv:
  "0 < n \<Longrightarrow> lc_inv False (initialize_largest_changes n)"
  by (simp add: lc_inv_def initialize_largest_changes_def sizes_descending_def sorted_replicate
        list_all_length)

lemma largest_changes_create_stats:
  "largest_changes create_stats = initialize_largest_changes 64"
  by (simp add: create_stats_def)

lemma stats_ok_create_stats: "stats_ok create_stats"
  by (simp add: create_stats_def stats_ok_def zero_histogram_ok)

lemma create_stats_ok: "stats_ok create_stats \<and> lc_inv False (largest_changes create_stats)
   \<and> lc_count (largest_changes create_stats) = 64"
  using initialize_largest_changes_inv[of 64] stats_ok_create_stats
  by (simp add: largest_changes_create_stats) (simp add: initialize_largest_changes_def)

lemma add_changes_lc_inv:
  "add_changes st cs = Some st' \<Longrightarrow> lc_inv b (largest_changes st) \<Longrightarrow>
   lc_inv (b \<or> list_ex (\<lambda>c. 1 \<le> sint (fst c)) cs) (largest_changes st')
   \<and> lc_count (largest_changes st') = lc_count (largest_changes st)"
proof (induction cs arbitrary: st b)
  case Nil
  then show ?case by simp
next
  case (Cons c cs)
  obtain rs es r p k pa where c: "c = (rs, es, r, p, k, pa)" by (cases c) auto
  from Cons.prems(1) c obtain st1 where
    1: "add_change st rs es r p k pa = Some st1" and 2: "add_changes st1 cs = Some st'"
    by (auto split: option.splits)
  from add_change_largest[OF 1] lc_inv_step[OF Cons.prems(2)]
  have inv1: "lc_inv (b \<or> 1 \<le> sint rs) (largest_changes st1)"
    and cnt: "lc_count (largest_changes st1) = lc_count (largest_changes st)" by auto
  from Cons.IH[OF 2 inv1] cnt c show ?case by (simp add: disj_assoc)
qed

lemma add_changes_total:
  "list_all (\<lambda>c. sint (fst c) < 2 ^ 62 \<and> sint (fst (snd c)) < 2 ^ 62) cs \<Longrightarrow>
   stats_ok st \<Longrightarrow> lc_inv b (largest_changes st) \<Longrightarrow> \<exists>st'. add_changes st cs = Some st'"
proof (induction cs arbitrary: st b)
  case Nil
  then show ?case by simp
next
  case (Cons c cs)
  obtain rs es r p k pa where c: "c = (rs, es, r, p, k, pa)" by (cases c) auto
  from Cons.prems(1) c have sz: "sint rs < 2 ^ 62" "sint es < 2 ^ 62" by auto
  from add_change_total[OF Cons.prems(2,3) sz] obtain st1 where
    1: "add_change st rs es r p k pa = Some st1" "stats_ok st1" by blast
  from add_change_largest[OF 1(1)] lc_inv_step[OF Cons.prems(3)]
  have inv1: "lc_inv (b \<or> 1 \<le> sint rs) (largest_changes st1)" by auto
  from Cons.IH[OF _ 1(2) inv1] Cons.prems(1) obtain st' where "add_changes st1 cs = Some st'"
    by auto
  then show ?case using 1(1) c by simp
qed

text \<open>
  Claim C5, amended. Starting from the initial largest-changes state (64 entries,
  \<open>min_size = 1\<close>, all sizes 0), after any sequence of \<^verbatim>\<open>add_change\<close> calls the list
  is sorted descending by size and its length is the capacity, 64; \<open>min_size\<close> is the
  size of the last entry once a call with a size of at least 1 has been made, and until
  then \<open>min_size\<close> is 1 while every stored size is 0; a call whose size is below
  \<open>min_size\<close> leaves the list unchanged. Every sequence of calls with sizes below
  \<open>2 ^ 62\<close> has a result.
\<close>

theorem largest_changes_invariants:
  "(add_changes create_stats cs = Some st \<longrightarrow>
      sizes_descending (largest_changes st)
      \<and> length (lc_changes (largest_changes st)) = lc_count (largest_changes st)
      \<and> lc_count (largest_changes st) = 64
      \<and> (if list_ex (\<lambda>c. 1 \<le> sint (fst c)) cs
         then min_size (largest_changes st) = lci_size (last (lc_changes (largest_changes st)))
         else min_size (largest_changes st) = 1
              \<and> list_all (\<lambda>c. lci_size c = 0) (lc_changes (largest_changes st))))
   \<and> (add_change st0 rs es r p k pa = Some st1 \<and> sint rs < min_size (largest_changes st0) \<longrightarrow>
        largest_changes st1 = largest_changes st0)
   \<and> (list_all (\<lambda>c. sint (fst c) < 2 ^ 62 \<and> sint (fst (snd c)) < 2 ^ 62) cs \<longrightarrow>
        (\<exists>st. add_changes create_stats cs = Some st))"
proof (intro conjI impI)
  assume a: "add_changes create_stats cs = Some st"
  from add_changes_lc_inv[OF a, of False] create_stats_ok
  have "lc_inv (list_ex (\<lambda>c. 1 \<le> sint (fst c)) cs) (largest_changes st)"
    "lc_count (largest_changes st) = 64" by auto
  then show "sizes_descending (largest_changes st)"
    "length (lc_changes (largest_changes st)) = lc_count (largest_changes st)"
    "lc_count (largest_changes st) = 64"
    "if list_ex (\<lambda>c. 1 \<le> sint (fst c)) cs
         then min_size (largest_changes st) = lci_size (last (lc_changes (largest_changes st)))
         else min_size (largest_changes st) = 1
              \<and> list_all (\<lambda>c. lci_size c = 0) (lc_changes (largest_changes st))"
    by (auto simp: lc_inv_def)
next
  assume "add_change st0 rs es r p k pa = Some st1 \<and> sint rs < min_size (largest_changes st0)"
  then show "largest_changes st1 = largest_changes st0"
    using add_change_largest[of st0 rs es r p k pa st1]
      identify_largest_reject[of "sint rs" "largest_changes st0" r p] by auto
next
  assume "list_all (\<lambda>c. sint (fst c) < 2 ^ 62 \<and> sint (fst (snd c)) < 2 ^ 62) cs"
  from add_changes_total[OF this, of create_stats False] create_stats_ok
  show "\<exists>st. add_changes create_stats cs = Some st" by auto
qed

theorem largest_changes_invariants_witness:
  "\<exists>st. add_changes create_stats
           [(5, 9, 1, ''/trunk/a.c'', file_rep, True), (0, 0, 2, ''/trunk'', dir_rep, False)]
         = Some st
       \<and> sizes_descending (largest_changes st)
       \<and> lc_count (largest_changes st) = 64
       \<and> min_size (largest_changes st) = lci_size (last (lc_changes (largest_changes st)))"
proof -
  define cs where "cs = [(5 :: 64 word, 9 :: 64 word, 1 :: int, ''/trunk/a.c'', file_rep, True),
              (0, 0, 2, ''/trunk'', dir_rep, False)]"
  have sz: "list_all (\<lambda>c. sint (fst c) < 2 ^ 62 \<and> sint (fst (snd c)) < 2 ^ 62) cs"
    by (simp add: cs_def)
  have ex: "list_ex (\<lambda>c. 1 \<le> sint (fst c)) cs" by (simp add: cs_def)
  from largest_changes_invariants[of cs, THEN conjunct2, THEN conjunct2, THEN mp, OF sz]
  obtain st where st: "add_changes create_stats cs = Some st" ..
  from largest_changes_invariants[of cs st, THEN conjunct1, THEN mp, OF st]
  have "sizes_descending (largest_changes st) \<and> lc_count (largest_changes st) = 64
    \<and> min_size (largest_changes st) = lci_size (last (lc_changes (largest_changes st)))"
    by (simp only: ex if_True)
  with st show ?thesis unfolding cs_def by blast
qed

text \<open>
  After a single call with size 0 (as before any call), \<open>min_size\<close> is 1 and the last
  entry has size 0: \<open>min_size\<close> is not the size of the last entry.
\<close>

theorem largest_changes_counterexample:
  "\<exists>st. add_changes create_stats [(0, 0, 1, ''/trunk'', dir_rep, True)] = Some st
       \<and> min_size (largest_changes st) = 1
       \<and> lci_size (last (lc_changes (largest_changes st))) = 0"
proof -
  define cs where "cs = [(0 :: 64 word, 0 :: 64 word, 1 :: int, ''/trunk'', dir_rep, True)]"
  have sz: "list_all (\<lambda>c. sint (fst c) < 2 ^ 62 \<and> sint (fst (snd c)) < 2 ^ 62) cs"
    by (simp add: cs_def)
  have nex: "\<not> list_ex (\<lambda>c. 1 \<le> sint (fst c)) cs" by (simp add: cs_def)
  have ok: "stats_ok create_stats" "lc_inv False (largest_changes create_stats)"
    using create_stats_ok by blast+
  from add_changes_total[OF sz ok]
  obtain st where st: "add_changes create_stats cs = Some st" ..
  from add_changes_lc_inv[OF st ok(2)] nex
  have inv: "lc_inv False (largest_changes st)" by (simp only: simp_thms)
  then have m: "min_size (largest_changes st) = 1"
    and z: "list_all (\<lambda>c. lci_size c = 0) (lc_changes (largest_changes st))"
    and ne: "lc_changes (largest_changes st) \<noteq> []"
    by (auto simp: lc_inv_def)
  from ne have "last (lc_changes (largest_changes st)) \<in> set (lc_changes (largest_changes st))"
    by (rule last_in_set)
  with z have "lci_size (last (lc_changes (largest_changes st))) = 0"
    by (simp add: list_all_iff)
  with st m show ?thesis unfolding cs_def by blast
qed

subsection \<open>Aggregation\<close>






















subsection \<open>The revisions array\<close>

lemma inner_refl: "inner q q"
  by (simp add: inner_def ev_refl)

lemma inner_trans: "inner q q' \<Longrightarrow> inner q' q'' \<Longrightarrow> inner q q''"
  by (auto simp: inner_def intro: ev_trans)

lemma inner_evolves: "inner q q' \<Longrightarrow> evolves q q'"
  by (simp add: inner_def)

lemma evolves_const:
  "evolves q q' \<Longrightarrow>
   fs q' = fs q \<and> head q' = head q \<and> shard_size q' = shard_size q
   \<and> min_unpacked_rev q' = min_unpacked_rev q \<and> progress_func q' = progress_func q
   \<and> progress_baton q' = progress_baton q \<and> cancel_func q' = cancel_func q
   \<and> cancel_baton q' = cancel_baton q \<and> cancel_impl q' = cancel_impl q"
  by (induction rule: evolves.induct) auto

lemma map_ri_revision_update:
  "ri_revision info' = ri_revision (xs ! ia) \<Longrightarrow>
   map ri_revision (xs[ia := info']) = map ri_revision xs"
  by (cases "ia < length xs") (simp_all add: map_update list_update_same_conv list_update_beyond)

lemma inner_cancel: "inner q (snd (check_cancel q))"
  by (auto simp: check_cancel_def inner_def intro: ev_cancel ev_refl)

lemma inner_progress: "inner q (notify_progress q r)"
  by (auto simp: notify_progress_def inner_def intro: ev_progress ev_refl)

lemma inner_revision_progress: "inner q (notify_revision_progress q r)"
  unfolding notify_revision_progress_def Let_def
  by (auto intro: inner_progress inner_refl inner_trans)

lemma inner_info:
  "ri_revision info' = ri_revision (info_heap q ! ia)
   \<Longrightarrow> representations info' = representations (info_heap q ! ia)
   \<Longrightarrow> inner q (q\<lparr>info_heap := (info_heap q)[ia := info']\<rparr>)"
  by (simp add: inner_def ev_info map_ri_revision_update)

lemma inner_reference:
  "k \<noteq> unused_rep
   \<Longrightarrow> inner q (q\<lparr>rep_heap := (rep_heap q)[t := add_reference (rep_heap q ! t) k]\<rparr>)"
  by (simp add: inner_def ev_reference)

lemma inner_change:
  "add_change (stats q) rs es r p k pa = Some st \<Longrightarrow> inner q (q\<lparr>stats := st\<rparr>)"
  by (simp add: inner_def ev_change)

declare bsearch_lower_bound.simps [simp del]

lemma find_representation_alt:
  "find_representation q (Some ia) r off =
     (case resolve_info q ia r of
        None \<Rightarrow> (None, - 1, None)
      | Some ia' \<Rightarrow>
          if hit q ia' off
          then (Some (representations (info_heap q ! ia') ! lower_bound_of q ia' off),
                int (lower_bound_of q ia' off), Some ia')
          else (None, int (lower_bound_of q ia' off), Some ia'))"
  by (simp add: find_representation_def resolve_info_def hit_def lower_bound_of_def Let_def
           split: option.splits)

lemma parse_representation_alt:
  "parse_representation q rep ia =
     (case resolve_info q ia (r_revision rep) of
        None \<Rightarrow> Inl Undefined_behaviour
      | Some ia' \<Rightarrow>
          if hit q ia' (sint (r_item_index rep))
          then Inr (q, representations (info_heap q ! ia')
                         ! lower_bound_of q ia' (sint (r_item_index rep)))
          else (case header_of q ia' rep of
                  Inl e \<Rightarrow> Inl e
                | Inr h \<Rightarrow> Inr (insert_rep q ia' (new_rep rep h), length (rep_heap q))))"
  by (simp add: parse_representation_def find_representation_alt header_of_def insert_rep_def
        new_rep_def Let_def split: option.splits sum.splits)

text \<open>The two ways \<open>parse_representation\<close> succeeds.\<close>

lemma parse_representation_cases:
  assumes "parse_representation q rep ia = Inr (q', t)"
  obtains
    (found) ia' where "resolve_info q ia (r_revision rep) = Some ia'"
      "hit q ia' (sint (r_item_index rep))" "q' = q"
      "t = representations (info_heap q ! ia') ! lower_bound_of q ia' (sint (r_item_index rep))"
  | (created) ia' h where "resolve_info q ia (r_revision rep) = Some ia'"
      "\<not> hit q ia' (sint (r_item_index rep))" "header_of q ia' rep = Inr h"
      "q' = insert_rep q ia' (new_rep rep h)" "t = length (rep_heap q)"
proof (cases "resolve_info q ia (r_revision rep)")
  case None
  with assms show ?thesis
    by (simp add: parse_representation_alt)
next
  case (Some ia')
  show ?thesis
  proof (cases "hit q ia' (sint (r_item_index rep))")
    case True
    with assms Some have "q' = q"
      "t = representations (info_heap q ! ia') ! lower_bound_of q ia' (sint (r_item_index rep))"
      by (auto simp add: parse_representation_alt)
    with Some True show ?thesis by (rule found)
  next
    case False
    show ?thesis
    proof (cases "header_of q ia' rep")
      case (Inl e)
      with assms Some False show ?thesis by (simp add: parse_representation_alt)
    next
      case (Inr h)
      with assms Some False have "q' = insert_rep q ia' (new_rep rep h)" "t = length (rep_heap q)"
        by (auto simp add: parse_representation_alt)
      with Some False Inr show ?thesis by (rule created)
    qed
  qed
qed

lemma insert_rep_inner:
  assumes "\<not> hit q ia (rep_offset r)" "ref_count r = 0" "kind r = unused_rep"
  shows "inner q (insert_rep q ia r)"
proof -
  have "evolves q (insert_rep q ia r)"
    unfolding insert_rep_def lower_bound_of_def
    by (rule ev_new_rep[OF assms(2,3) refl]) (use assms(1) in \<open>simp add: hit_def lower_bound_of_def\<close>)
  moreover have "revisions (insert_rep q ia r) = revisions q" by (simp add: insert_rep_def)
  moreover have "map ri_revision (info_heap (insert_rep q ia r)) = map ri_revision (info_heap q)"
    by (simp add: insert_rep_def map_ri_revision_update)
  ultimately show ?thesis by (simp add: inner_def)
qed

lemma parse_representation_inner:
  assumes "parse_representation q rep ia = Inr (q', t)"
  shows "inner q q'"
  using assms
proof (cases rule: parse_representation_cases)
  case (found ia')
  then show ?thesis by (simp add: inner_refl)
next
  case (created ia' h)
  then show ?thesis using insert_rep_inner[of q ia' "new_rep rep h"]
    by (simp add: new_rep_def)
qed

lemma text_kind_used: "text_kind n \<noteq> unused_rep" "props_kind n \<noteq> unused_rep"
  by (simp_all add: text_kind_def props_kind_def)

lemma reference_rep_inner:
  "reference_rep q rep ia k = Inr (q', t) \<Longrightarrow> k \<noteq> unused_rep \<Longrightarrow> inner q q'"
  by (auto simp: reference_rep_def split: option.splits sum.splits
           intro: inner_refl inner_trans[OF parse_representation_inner inner_reference])

lemma record_change_inner: "record_change q n t = Some q' \<Longrightarrow> inner q q'"
  by (auto simp: record_change_def Let_def split: option.splits if_splits
           intro: inner_refl inner_change)

lemma update_noderev_stats_inner: "inner q (update_noderev_stats q ia n len)"
  unfolding update_noderev_stats_def Let_def
  by (rule inner_info) simp_all

lemma read_noderev_head_inner:
  "(read_noderev_head q c off ia = Inl x \<longrightarrow> inner q (snd x))
   \<and> (read_noderev_head q c off ia = Inr y \<longrightarrow> inner q (fst y))"
  unfolding read_noderev_head_def Let_def
  by (auto split: sum.splits option.splits if_splits prod.splits
           intro: inner_refl
           dest!: reference_rep_inner[OF _ text_kind_used(1)]
                  reference_rep_inner[OF _ text_kind_used(2)] record_change_inner;
      blast intro: inner_trans inner_refl)


lemma parse_dir_entries_inner_aux:
  assumes rn: "\<And>q off e q'. read_noderev n q c off ia = Some (e, q') \<Longrightarrow> inner q q'"
  shows "parse_dir_entries n q c entries ia = Some (e, q') \<Longrightarrow> inner q q'"
proof (induction entries arbitrary: q)
  case Nil
  then show ?case by (simp add: inner_refl)
next
  case (Cons d ds)
  show ?case
  proof (cases "dirent_id_rev d = ri_revision (info_heap q ! ia)")
    case False
    with Cons show ?thesis by simp
  next
    case True
    from Cons.prems True obtain r where
      r: "read_noderev n q c (unat (dirent_id_item d)) ia = Some r"
      by (cases "read_noderev n q c (unat (dirent_id_item d)) ia") auto
    obtain e1 q1 where r1: "r = (e1, q1)" by (cases r) auto
    from rn[OF r[unfolded r1]] have i1: "inner q q1" .
    show ?thesis
    proof (cases e1)
      case None
      with Cons.prems True r r1 have "parse_dir_entries n q1 c ds ia = Some (e, q')" by simp
      from Cons.IH[OF this] i1 show ?thesis by (rule inner_trans[rotated])
    next
      case (Some err)
      with Cons.prems True r r1 have "q' = q1" by simp
      with i1 show ?thesis by simp
    qed
  qed
qed

lemma read_noderev_inner:
  "read_noderev n q c off ia = Some (e, q') \<Longrightarrow> inner q q'"
proof (induction n arbitrary: q off e q')
  case 0
  then show ?case by simp
next
  case (Suc n)
  show ?case
  proof (cases "read_noderev_head q c off ia")
    case (Inl x)
    with Suc.prems read_noderev_head_inner[of q c off ia x] show ?thesis
      by (cases x) auto
  next
    case (Inr y)
    obtain q1 nr len d where y: "y = (q1, nr, len, d)" by (cases y) auto
    from read_noderev_head_inner[of q c off ia _ y] Inr y have i1: "inner q q1" by simp
    let ?r = "if d then parse_dir n q1 c nr ia else Some (None, q1)"
    from Suc.prems Inr y obtain e2 q2 where r2: "?r = Some (e2, q2)"
      by (cases ?r) (auto split: option.splits)
    have i2: "inner q1 q2"
    proof (cases d)
      case False
      with r2 show ?thesis by (simp add: inner_refl)
    next
      case True
      with r2 have pd: "parse_dir n q1 c nr ia = Some (e2, q2)" by simp
      show ?thesis
      proof (cases "rep_contents_dir (fs q1) nr")
        case (Inl err)
        with pd show ?thesis by (simp add: inner_refl)
      next
        case (Inr entries)
        with pd have "parse_dir_entries n q1 c entries ia = Some (e2, q2)" by simp
        from parse_dir_entries_inner_aux[OF Suc.IH this] show ?thesis .
      qed
    qed
    show ?thesis
    proof (cases e2)
      case None
      with Suc.prems Inr y r2 have "q' = update_noderev_stats q2 ia nr len"
        by (simp split: if_splits)
      with i1 i2 update_noderev_stats_inner[of q2 ia nr len] show ?thesis
        by (blast intro: inner_trans)
    next
      case (Some err)
      with Suc.prems Inr y r2 have "q' = q2" by (simp split: if_splits)
      with i1 i2 show ?thesis by (blast intro: inner_trans)
    qed
  qed
qed

lemma inner_revisions: "inner q q' \<Longrightarrow> revisions q' = revisions q"
  by (simp add: inner_def)

lemma inner_ri_revision:
  "inner q q' \<Longrightarrow> length (info_heap q') = length (info_heap q)
     \<and> (a < length (info_heap q) \<longrightarrow> ri_revision (info_heap q' ! a) = ri_revision (info_heap q ! a))"
proof -
  assume "inner q q'"
  then have m: "map ri_revision (info_heap q') = map ri_revision (info_heap q)"
    by (simp add: inner_def)
  then have l: "length (info_heap q') = length (info_heap q)" by (rule map_eq_imp_length_eq)
  moreover have "a < length (info_heap q) \<longrightarrow> ri_revision (info_heap q' ! a) = ri_revision (info_heap q ! a)"
  proof
    assume a: "a < length (info_heap q)"
    then have "map ri_revision (info_heap q') ! a = map ri_revision (info_heap q) ! a"
      using m by simp
    then show "ri_revision (info_heap q' ! a) = ri_revision (info_heap q ! a)"
      using a l by simp
  qed
  ultimately show ?thesis by simp
qed

lemma read_phys_revision_evolves:
  assumes res: "read_phys_revision fuel q f info file_rev = Some (e, q')"
    and rev: "ri_revision info = int (length (revisions q))"
    and reps: "representations info = []"
  shows "evolves q q' \<and> (e = None \<longrightarrow> length (revisions q') = Suc (length (revisions q)))"
proof (cases "get_content f (ri_offset info) (ri_end info - ri_offset info)")
  case (Inl err)
  with res show ?thesis by (auto simp: read_phys_revision_def ev_refl)
next
  case (Inr rev_content)
  note content = Inr
  show ?thesis
  proof (cases "read_revision_header (fs q) rev_content")
    case (Inl err)
    with res content show ?thesis by (auto simp: read_phys_revision_def ev_refl)
  next
    case (Inr hdr)
    obtain chg chg_len root where hdr: "hdr = (chg, chg_len, root)" by (cases hdr) auto
    show ?thesis
    proof (cases "unat chg + unat chg_len > length (sb_data rev_content)")
      case True
      with res content Inr hdr show ?thesis by (auto simp: read_phys_revision_def ev_refl)
    next
      case False
      define info1 where "info1 = info\<lparr>changes := chg, changes_len := chg_len,
                         change_count := of_nat (get_change_count
                           (drop (unat chg) (sb_data rev_content)) (unat chg_len))\<rparr>"
      let ?ia = "length (info_heap q)"
      define q1 where "q1 = q\<lparr>info_heap := info_heap q @ [info1]\<rparr>"
      have e1: "evolves q q1" unfolding q1_def by (rule ev_new_info) (simp add: info1_def reps)
      from res content Inr hdr False obtain r where
        r: "read_noderev fuel q1 rev_content (unat root) ?ia = Some r"
        by (cases "read_noderev fuel q1 rev_content (unat root) ?ia")
           (auto simp: read_phys_revision_def Let_def info1_def q1_def)
      obtain e2 q2 where r2: "r = (e2, q2)" by (cases r) auto
      from read_noderev_inner[OF r[unfolded r2]] have i2: "inner q1 q2" .
      from inner_ri_revision[OF i2, of ?ia] have
        len2: "length (info_heap q2) = Suc (length (info_heap q))"
        and rev2: "ri_revision (info_heap q2 ! ?ia) = ri_revision info"
        by (simp_all add: q1_def info1_def)
      have revs2: "revisions q2 = revisions q" using inner_revisions[OF i2] by (simp add: q1_def)
      have e2': "evolves q q2" using e1 inner_evolves[OF i2] by (rule ev_trans)
      from res content Inr hdr False r r2 have res':
        "(case e2 of Some err \<Rightarrow> Some (Some err, q2)
          | None \<Rightarrow> (case close_revision_file (fs q2) file_rev of
                        Some err \<Rightarrow> Some (Some err, q2)
                      | None \<Rightarrow> Some (None,
                                q2\<lparr>info_heap := (info_heap q2)
                                      [?ia := (info_heap q2 ! ?ia)\<lparr>rev_file := None\<rparr>],
                                    revisions := revisions q2 @ [?ia]\<rparr>))) = Some (e, q')"
        by (simp add: read_phys_revision_def Let_def info1_def q1_def)
      show ?thesis
      proof (cases e2)
        case (Some err)
        with res' e2' show ?thesis by auto
      next
        case None
        show ?thesis
        proof (cases "close_revision_file (fs q2) file_rev")
          case (Some err)
          with res' None e2' show ?thesis by auto
        next
          case cn: None
          define q3 where "q3 = q2\<lparr>info_heap := (info_heap q2)
                                      [?ia := (info_heap q2 ! ?ia)\<lparr>rev_file := None\<rparr>]\<rparr>"
          have e3: "evolves q2 q3" unfolding q3_def by (rule ev_info) simp_all
          have "evolves q3 (q3\<lparr>revisions := revisions q3 @ [?ia]\<rparr>)"
            by (rule ev_push) (simp_all add: q3_def len2 rev2 rev revs2)
          moreover have "q3\<lparr>revisions := revisions q3 @ [?ia]\<rparr> = q'"
            using res' None cn by (simp add: q3_def)
          ultimately have "evolves q3 q'" by simp
          with e2' e3 have "evolves q q'" by (blast intro: ev_trans)
          moreover have "e = None" "length (revisions q') = Suc (length (revisions q))"
            using res' None cn revs2 by auto
          ultimately show ?thesis by simp
        qed
      qed
    qed
  qed
qed


lemma check_cancel_cases:
  obtains (ok) q1 where "check_cancel q = (None, q1)" "inner q q1"
  | (cancelled) err q1 where "check_cancel q = (Some err, q1)" "inner q q1"
proof (cases "check_cancel q")
  case (Pair e q1)
  with inner_cancel[of q] have "inner q q1" by simp
  with Pair ok cancelled show ?thesis by (cases e) auto
qed

lemma phys_pack_loop_evolves:
  "phys_pack_loop fuel k q base f fsz i = Some (e, q') \<Longrightarrow>
   int (length (revisions q)) = base + i \<Longrightarrow>
   evolves q q' \<and> (e = None \<longrightarrow> int (length (revisions q')) = base + i + int k)"
proof (induction k arbitrary: q f i)
  case 0
  then show ?case by (simp add: ev_refl)
next
  case (Suc k)
  show ?case
  proof (cases q rule: check_cancel_cases)
    case (cancelled err q1)
    with Suc.prems show ?thesis by (auto simp: inner_evolves)
  next
    case (ok q1)
    note i1 = inner_evolves[OF ok(2)]
    have revs1: "revisions q1 = revisions q" using ok(2) by (rule inner_revisions)
    show ?thesis
    proof (cases "get_packed_offset (fs q1) (base + i)")
      case (Inl err)
      with Suc.prems ok i1 show ?thesis by auto
    next
      case (Inr off)
      note off = Inr
      let ?en = "if i + 1 = shard_size q1 then Inr fsz
                 else get_packed_offset (fs q1) (base + i + 1)"
      show ?thesis
      proof (cases ?en)
        case (Inl err)
        with Suc.prems ok off i1 show ?thesis by auto
      next
        case (Inr en)
        let ?info = "empty_revision_info\<lparr>rev_file := Some f, ri_revision := base + i,
                               ri_offset := off, ri_end := en\<rparr>"
        from Suc.prems(1) ok off Inr obtain r where
          r: "read_phys_revision fuel q1 f ?info base = Some r"
          by (cases "read_phys_revision fuel q1 f ?info base") auto
        obtain e2 q2 where r2: "r = (e2, q2)" by (cases r) auto
        have "ri_revision ?info = int (length (revisions q1))" "representations ?info = []"
          using Suc.prems(2) revs1 by (simp_all add: empty_revision_info_def)
        from read_phys_revision_evolves[OF r[unfolded r2] this] have
          e2: "evolves q1 q2" and len2: "e2 = None \<longrightarrow> length (revisions q2) = Suc (length (revisions q1))"
          by simp_all
        have e12: "evolves q q2" using i1 e2 by (rule ev_trans)
        show ?thesis
        proof (cases e2)
          case (Some err)
          with Suc.prems(1) ok off Inr r r2 e12 show ?thesis by auto
        next
          case None
          with Suc.prems(1) ok off Inr r r2 have
            rec: "phys_pack_loop fuel k q2 base (f\<lparr>rf_open := False\<rparr>) fsz (i + 1) = Some (e, q')"
            by simp
          have "int (length (revisions q2)) = base + (i + 1)"
            using len2 None revs1 Suc.prems(2) by simp
          from Suc.IH[OF rec this] e12 show ?thesis by (auto intro: ev_trans)
        qed
      qed
    qed
  qed
qed

lemma read_phys_pack_file_evolves:
  assumes res: "read_phys_pack_file fuel q base = Some (e, q')"
    and len: "0 < shard_size q \<longrightarrow> int (length (revisions q)) = base"
  shows "evolves q q'
         \<and> (e = None \<longrightarrow> length (revisions q') = length (revisions q) + nat (shard_size q))"
proof (cases "open_pack_or_rev_file (fs q) base")
  case (Inl err)
  with res show ?thesis by (auto simp: read_phys_pack_file_def ev_refl)
next
  case (Inr bytes)
  let ?f = "\<lparr>rf_open = True, rf_content = bytes\<rparr>"
  from res Inr obtain r where
    r: "phys_pack_loop fuel (nat (shard_size q)) q base ?f (int (length bytes)) 0 = Some r"
    by (cases "phys_pack_loop fuel (nat (shard_size q)) q base ?f (int (length bytes)) 0")
       (auto simp: read_phys_pack_file_def)
  obtain e1 q1 where r1: "r = (e1, q1)" by (cases r) auto
  have l: "evolves q q1 \<and> (e1 = None \<longrightarrow> length (revisions q1) = length (revisions q) + nat (shard_size q))"
  proof (cases "0 < shard_size q")
    case True
    with len have "int (length (revisions q)) = base + 0" by simp
    from phys_pack_loop_evolves[OF r[unfolded r1] this] True len show ?thesis by auto
  next
    case False
    then have "nat (shard_size q) = 0" by simp
    with r r1 show ?thesis by (simp add: ev_refl)
  qed
  show ?thesis
  proof (cases e1)
    case (Some err)
    with res Inr r r1 l show ?thesis by (auto simp: read_phys_pack_file_def)
  next
    case None
    with res Inr r r1 have q': "q' = notify_progress q1 base" "e = None"
      by (auto simp: read_phys_pack_file_def)
    from inner_progress[of q1 base] have "inner q1 q'" by (simp add: q')
    with l None q' show ?thesis
      by (auto intro: ev_trans inner_evolves simp: inner_revisions)
  qed
qed

lemma read_phys_revision_file_evolves:
  assumes res: "read_phys_revision_file fuel q revision = Some (e, q')"
    and len: "int (length (revisions q)) = revision"
  shows "evolves q q' \<and> (e = None \<longrightarrow> length (revisions q') = Suc (length (revisions q)))"
proof (cases q rule: check_cancel_cases)
  case (cancelled err q1)
  with res show ?thesis by (auto simp: read_phys_revision_file_def inner_evolves)
next
  case (ok q1)
  note i1 = inner_evolves[OF ok(2)]
  have revs1: "revisions q1 = revisions q" using ok(2) by (rule inner_revisions)
  show ?thesis
  proof (cases "open_pack_or_rev_file (fs q1) revision")
    case (Inl err)
    with res ok i1 show ?thesis by (auto simp: read_phys_revision_file_def)
  next
    case (Inr bytes)
    let ?f = "\<lparr>rf_open = True, rf_content = bytes\<rparr>"
    let ?info = "empty_revision_info\<lparr>rev_file := Some ?f, ri_revision := revision,
                             ri_offset := 0, ri_end := int (length bytes)\<rparr>"
    from res ok Inr obtain r where
      r: "read_phys_revision fuel q1 ?f ?info revision = Some r"
      by (cases "read_phys_revision fuel q1 ?f ?info revision")
         (auto simp: read_phys_revision_file_def Let_def)
    obtain e2 q2 where r2: "r = (e2, q2)" by (cases r) auto
    have "ri_revision ?info = int (length (revisions q1))" "representations ?info = []"
      using len revs1 by (simp_all add: empty_revision_info_def)
    from read_phys_revision_evolves[OF r[unfolded r2] this] have
      e2: "evolves q1 q2" and len2: "e2 = None \<longrightarrow> length (revisions q2) = Suc (length (revisions q1))"
      by simp_all
    have e12: "evolves q q2" using i1 e2 by (rule ev_trans)
    show ?thesis
    proof (cases e2)
      case (Some err)
      with res ok Inr r r2 e12 show ?thesis by (auto simp: read_phys_revision_file_def Let_def)
    next
      case None
      with res ok Inr r r2 have q': "q' = notify_revision_progress q2 revision" "e = None"
        by (auto simp: read_phys_revision_file_def Let_def)
      from inner_revision_progress[of q2 revision] have "inner q2 q'" by (simp add: q')
      with e12 len2 None revs1 show ?thesis
        by (auto intro: ev_trans inner_evolves simp: inner_revisions)
    qed
  qed
qed

lemma push_revision_infos_evolves:
  "k = 0 \<or> int (length (revisions q)) = revision \<Longrightarrow>
   evolves q (push_revision_infos k q revision)
   \<and> length (revisions (push_revision_infos k q revision)) = length (revisions q) + k"
proof (induction k arbitrary: q revision)
  case 0
  then show ?case by (simp add: ev_refl)
next
  case (Suc k)
  then have len: "int (length (revisions q)) = revision" by simp
  let ?info = "empty_revision_info\<lparr>ri_revision := revision\<rparr>"
  define q1 where "q1 = q\<lparr>info_heap := info_heap q @ [?info]\<rparr>"
  define q2 where "q2 = q1\<lparr>revisions := revisions q1 @ [length (info_heap q)]\<rparr>"
  have e1: "evolves q q1" unfolding q1_def
    by (rule ev_new_info) (simp add: empty_revision_info_def)
  have e2: "evolves q1 q2" unfolding q2_def
    by (rule ev_push) (simp_all add: q1_def len)
  have eq: "q\<lparr>info_heap := info_heap q @ [?info],
              revisions := revisions q @ [length (info_heap q)]\<rparr> = q2"
    by (simp add: q1_def q2_def)
  have unfold: "push_revision_infos (Suc k) q revision = push_revision_infos k q2 (revision + 1)"
    by (simp only: push_revision_infos.simps eq)
  have len2: "length (revisions q2) = Suc (length (revisions q))" by (simp add: q2_def q1_def)
  then have "k = 0 \<or> int (length (revisions q2)) = revision + 1" using len by simp
  from Suc.IH[OF this] have
    ih: "evolves q2 (push_revision_infos k q2 (revision + 1))"
        "length (revisions (push_revision_infos k q2 (revision + 1))) = length (revisions q2) + k"
    by simp_all
  have "evolves q (push_revision_infos k q2 (revision + 1))"
    using e1 e2 ih(1) by (blast intro: ev_trans)
  then show ?case unfolding unfold using ih(2) len2 by simp
qed

lemma process_entry_inner:
  assumes "process_entry fuel q f entry = Some (e, q')"
  shows "inner q q'"
proof (cases "pe_type entry")
  case ITEM_TYPE_NODEREV
  with assms show ?thesis
    by (auto simp: process_entry_def inner_refl read_noderev_inner
             split: option.splits sum.splits)
next
  case ITEM_TYPE_CHANGES
  with assms show ?thesis
    by (auto simp: process_entry_def inner_refl Let_def inner_info
             split: option.splits sum.splits)
next
  case (ITEM_TYPE_OTHER t)
  with assms show ?thesis by (auto simp: process_entry_def inner_refl)
qed

lemma log_entries_inner:
  "log_entries fuel q f entries i offset = Some (e, q', offset') \<Longrightarrow> inner q q'"
proof (induction entries arbitrary: q i offset)
  case Nil
  then show ?case by (simp add: inner_refl)
next
  case (Cons entry entries)
  show ?case
  proof (cases "(i = 0 \<and> pe_offset entry < offset) \<or> pe_size entry = 0")
    case True
    with Cons.prems have "log_entries fuel q f entries (i + 1) offset = Some (e, q', offset')"
      by (auto split: if_splits)
    from Cons.IH[OF this] show ?thesis .
  next
    case False
    with Cons.prems obtain r where r: "process_entry fuel q f entry = Some r"
      by (cases "process_entry fuel q f entry") auto
    obtain e1 q1 where r1: "r = (e1, q1)" by (cases r) auto
    from process_entry_inner[OF r[unfolded r1]] have i1: "inner q q1" .
    show ?thesis
    proof (cases e1)
      case (Some err)
      with Cons.prems False r r1 i1 show ?thesis by auto
    next
      case None
      with Cons.prems False r r1 have
        "log_entries fuel q1 f entries (i + 1) (offset + pe_size entry) = Some (e, q', offset')"
        by auto
      from Cons.IH[OF this] i1 show ?thesis by (blast intro: inner_trans)
    qed
  qed
qed

lemma log_blocks_inner:
  "log_blocks fuel n q base f mx offset = Some (e, q') \<Longrightarrow> inner q q'"
proof (induction n arbitrary: q offset)
  case 0
  then show ?case by (auto simp: inner_refl split: if_splits)
next
  case (Suc n)
  show ?case
  proof (cases "offset < mx")
    case False
    with Suc.prems show ?thesis by (simp add: inner_refl)
  next
    case True
    show ?thesis
    proof (cases q rule: check_cancel_cases)
      case (cancelled err q1)
      with Suc.prems True show ?thesis by auto
    next
      case (ok q1)
      show ?thesis
      proof (cases "p2l_index_lookup (fs q1) base offset")
        case (Inl err)
        with Suc.prems True ok show ?thesis by auto
      next
        case (Inr entries)
        with Suc.prems True ok obtain r where r: "log_entries fuel q1 f entries 0 offset = Some r"
          by (cases "log_entries fuel q1 f entries 0 offset") auto
        obtain e2 q2 off2 where r2: "r = (e2, q2, off2)" by (cases r) auto
        from log_entries_inner[OF r[unfolded r2]] ok(2) have i2: "inner q q2"
          by (blast intro: inner_trans)
        show ?thesis
        proof (cases e2)
          case (Some err)
          with Suc.prems True ok Inr r r2 i2 show ?thesis by auto
        next
          case None
          with Suc.prems True ok Inr r r2 have "log_blocks fuel n q2 base f mx off2 = Some (e, q')"
            by auto
          from Suc.IH[OF this] i2 show ?thesis by (blast intro: inner_trans)
        qed
      qed
    qed
  qed
qed

lemma read_log_rev_or_packfile_evolves:
  assumes res: "read_log_rev_or_packfile fuel q base count = Some (e, q')"
    and len: "0 < count \<longrightarrow> int (length (revisions q)) = base"
  shows "evolves q q' \<and> length (revisions q') = length (revisions q) + nat count"
proof -
  define q1 where "q1 = push_revision_infos (nat count) q base"
  from len have "nat count = 0 \<or> int (length (revisions q)) = base" by auto
  from push_revision_infos_evolves[OF this] have
    e1: "evolves q q1" and len1: "length (revisions q1) = length (revisions q) + nat count"
    by (simp_all add: q1_def)
  have "inner q1 q'"
  proof (cases "open_pack_or_rev_file (fs q1) base")
    case (Inl err)
    with res show ?thesis by (auto simp: read_log_rev_or_packfile_def Let_def q1_def inner_refl)
  next
    case (Inr bytes)
    note bytes = Inr
    show ?thesis
    proof (cases "p2l_get_max_offset (fs q1) base")
      case (Inl err)
      with res bytes show ?thesis
        by (auto simp: read_log_rev_or_packfile_def Let_def q1_def inner_refl)
    next
      case (Inr mx)
      show ?thesis
      proof (cases "array_idx (revisions q1) base")
        case None
        with res bytes Inr show ?thesis
          by (auto simp: read_log_rev_or_packfile_def Let_def q1_def inner_refl)
      next
        case (Some ia)
        define q2 where "q2 = q1\<lparr>info_heap := (info_heap q1)
                               [ia := (info_heap q1 ! ia)\<lparr>ri_end := mx\<rparr>]\<rparr>"
        have i2: "inner q1 q2" unfolding q2_def by (rule inner_info) simp_all
        from res bytes Inr Some have
          "log_blocks fuel fuel q2 base \<lparr>rf_open = True, rf_content = bytes\<rparr> mx 0 = Some (e, q')"
          by (simp add: read_log_rev_or_packfile_def Let_def q1_def q2_def)
        from log_blocks_inner[OF this] i2 show ?thesis by (blast intro: inner_trans)
      qed
    qed
  qed
  with e1 len1 show ?thesis
    by (auto intro: ev_trans inner_evolves simp: inner_revisions)
qed

lemma read_log_pack_file_evolves:
  assumes res: "read_log_pack_file fuel q base = Some (e, q')"
    and len: "0 < shard_size q \<longrightarrow> int (length (revisions q)) = base"
  shows "evolves q q'
         \<and> (e = None \<longrightarrow> length (revisions q') = length (revisions q) + nat (shard_size q))"
proof -
  from res obtain r where r: "read_log_rev_or_packfile fuel q base (shard_size q) = Some r"
    by (cases "read_log_rev_or_packfile fuel q base (shard_size q)")
       (auto simp: read_log_pack_file_def)
  obtain e1 q1 where r1: "r = (e1, q1)" by (cases r) auto
  from read_log_rev_or_packfile_evolves[OF r[unfolded r1] len] have
    l: "evolves q q1" "length (revisions q1) = length (revisions q) + nat (shard_size q)"
    by simp_all
  show ?thesis
  proof (cases e1)
    case (Some err)
    with res r r1 l show ?thesis by (auto simp: read_log_pack_file_def)
  next
    case None
    with res r r1 have q': "q' = notify_progress q1 base"
      by (auto simp: read_log_pack_file_def)
    from inner_progress[of q1 base] have "inner q1 q'" by (simp add: q')
    with l show ?thesis by (auto intro: ev_trans inner_evolves simp: inner_revisions)
  qed
qed

lemma read_log_revision_file_evolves:
  assumes res: "read_log_revision_file fuel q revision = Some (e, q')"
    and len: "int (length (revisions q)) = revision"
  shows "evolves q q' \<and> (e = None \<longrightarrow> length (revisions q') = Suc (length (revisions q)))"
proof -
  from res obtain r where r: "read_log_rev_or_packfile fuel q revision 1 = Some r"
    by (cases "read_log_rev_or_packfile fuel q revision 1")
       (auto simp: read_log_revision_file_def)
  obtain e1 q1 where r1: "r = (e1, q1)" by (cases r) auto
  from len have "(0::int) < 1 \<longrightarrow> int (length (revisions q)) = revision" by simp
  from read_log_rev_or_packfile_evolves[OF r[unfolded r1] this] have
    l: "evolves q q1" "length (revisions q1) = Suc (length (revisions q))"
    by simp_all
  show ?thesis
  proof (cases e1)
    case (Some err)
    with res r r1 l show ?thesis by (auto simp: read_log_revision_file_def)
  next
    case None
    with res r r1 have q': "q' = notify_revision_progress q1 revision"
      by (auto simp: read_log_revision_file_def)
    from inner_revision_progress[of q1 revision] have "inner q1 q'" by (simp add: q')
    with l show ?thesis by (auto intro: ev_trans inner_evolves simp: inner_revisions)
  qed
qed


lemma read_pack_file_evolves:
  assumes res: "(if use_log_addressing (fs q) then read_log_pack_file fuel q revision
                 else read_phys_pack_file fuel q revision) = Some (e, q')"
    and len: "0 < shard_size q \<longrightarrow> int (length (revisions q)) = revision"
  shows "evolves q q'
         \<and> (e = None \<longrightarrow> length (revisions q') = length (revisions q) + nat (shard_size q))"
  using res read_log_pack_file_evolves[OF _ len, of fuel e q']
    read_phys_pack_file_evolves[OF _ len, of fuel e q']
  by (cases "use_log_addressing (fs q)") simp_all

lemma read_packed_revs_evolves:
  "read_packed_revs fuel n q revision = Some (e, q', revision') \<Longrightarrow> packed_inv q revision \<Longrightarrow>
   evolves q q' \<and> (e = None \<longrightarrow> int (length (revisions q')) = revision')"
proof (induction n arbitrary: q revision)
  case 0
  then show ?case by (auto simp: ev_refl packed_inv_def split: if_splits)
next
  case (Suc n)
  show ?case
  proof (cases "revision < min_unpacked_rev q")
    case False
    with Suc.prems show ?thesis by (auto simp: ev_refl packed_inv_def split: if_splits)
  next
    case True
    let ?r = "if use_log_addressing (fs q) then read_log_pack_file fuel q revision
              else read_phys_pack_file fuel q revision"
    from Suc.prems(1) True obtain r where r: "?r = Some r"
      by (cases ?r) (auto split: if_splits)
    obtain e1 q1 where r1: "r = (e1, q1)" by (cases r) auto
    have len: "0 < shard_size q \<longrightarrow> int (length (revisions q)) = revision"
      using Suc.prems(2) by (simp add: packed_inv_def)
    from read_pack_file_evolves[OF r[unfolded r1] len] have
      e1: "evolves q q1"
      and len1: "e1 = None \<longrightarrow> length (revisions q1) = length (revisions q) + nat (shard_size q)"
      by simp_all
    note c = evolves_const[OF e1]
    show ?thesis
    proof (cases e1)
      case (Some err)
      with Suc.prems(1) True r r1 e1 show ?thesis by (auto split: if_splits)
    next
      case None
      with Suc.prems(1) True r r1 have
        rec: "read_packed_revs fuel n q1 (revision + shard_size q1) = Some (e, q', revision')"
        by (auto split: if_splits)
      have "packed_inv q1 (revision + shard_size q1)"
        using len1 None Suc.prems(2) c True by (auto simp: packed_inv_def split: if_splits)
      from Suc.IH[OF rec this] e1 show ?thesis by (auto intro: ev_trans)
    qed
  qed
qed

lemma read_revision_file_evolves:
  assumes res: "(if use_log_addressing (fs q) then read_log_revision_file fuel q revision
                 else read_phys_revision_file fuel q revision) = Some (e, q')"
    and len: "int (length (revisions q)) = revision"
  shows "evolves q q' \<and> (e = None \<longrightarrow> length (revisions q') = Suc (length (revisions q)))"
  using res read_log_revision_file_evolves[OF _ len, of fuel e q']
    read_phys_revision_file_evolves[OF _ len, of fuel e q']
  by (cases "use_log_addressing (fs q)") simp_all

lemma read_unpacked_revs_evolves:
  "read_unpacked_revs k fuel q revision = Some (e, q') \<Longrightarrow>
   int (length (revisions q)) = revision \<Longrightarrow> evolves q q'"
proof (induction k arbitrary: q revision)
  case 0
  then show ?case by (simp add: ev_refl)
next
  case (Suc k)
  let ?r = "if use_log_addressing (fs q) then read_log_revision_file fuel q revision
            else read_phys_revision_file fuel q revision"
  from Suc.prems(1) obtain r where r: "?r = Some r"
    by (cases ?r) (auto split: if_splits)
  obtain e1 q1 where r1: "r = (e1, q1)" by (cases r) auto
  from read_revision_file_evolves[OF r[unfolded r1] Suc.prems(2)] have
    e1: "evolves q q1"
    and len1: "e1 = None \<longrightarrow> length (revisions q1) = Suc (length (revisions q))"
    by simp_all
  show ?case
  proof (cases e1)
    case (Some err)
    with Suc.prems(1) r r1 e1 show ?thesis by (auto split: if_splits)
  next
    case None
    with Suc.prems(1) r r1 have rec: "read_unpacked_revs k fuel q1 (revision + 1) = Some (e, q')"
      by (auto split: if_splits)
    have "int (length (revisions q1)) = revision + 1" using len1 None Suc.prems(2) by simp
    from Suc.IH[OF rec this] e1 show ?thesis by (auto intro: ev_trans)
  qed
qed

lemma read_revisions_evolves:
  assumes res: "read_revisions fuel q = Some (e, q')" and empty: "revisions q = []"
  shows "evolves q q'"
proof -
  from res obtain r where r: "read_packed_revs fuel fuel q 0 = Some r"
    by (cases "read_packed_revs fuel fuel q 0") (auto simp: read_revisions_def)
  obtain e1 q1 rev1 where r1: "r = (e1, q1, rev1)" by (cases r) auto
  have "packed_inv q 0" using empty by (simp add: packed_inv_def)
  from read_packed_revs_evolves[OF r[unfolded r1] this] have
    e1: "evolves q q1" and len1: "e1 = None \<longrightarrow> int (length (revisions q1)) = rev1"
    by simp_all
  show ?thesis
  proof (cases e1)
    case (Some err)
    with res r r1 e1 show ?thesis by (auto simp: read_revisions_def)
  next
    case None
    with res r r1 have
      "read_unpacked_revs (nat (head q1 + 1 - rev1)) fuel q1 rev1 = Some (e, q')"
      by (auto simp: read_revisions_def)
    from read_unpacked_revs_evolves[OF this] len1 None e1 show ?thesis
      by (auto intro: ev_trans)
  qed
qed

lemma revisions_indexed_heap:
  assumes "revisions_indexed q" "revisions q' = revisions q"
    "length (info_heap q) \<le> length (info_heap q')"
    "\<And>a. a < length (info_heap q) \<Longrightarrow> ri_revision (info_heap q' ! a) = ri_revision (info_heap q ! a)"
  shows "revisions_indexed q'"
proof -
  from assms(1) have v: "\<forall>ia \<in> set (revisions q). ia < length (info_heap q)"
    by (simp add: revisions_indexed_def list_all_iff)
  then have "map (\<lambda>ia. ri_revision (info_heap q' ! ia)) (revisions q)
             = map (\<lambda>ia. ri_revision (info_heap q ! ia)) (revisions q)"
    using assms(4) by (intro map_cong) auto
  with assms(1,2,3) v show ?thesis
    by (auto simp: revisions_indexed_def list_all_iff)
qed

lemma ri_revision_update:
  "ri_revision info' = ri_revision (xs ! ia) \<Longrightarrow> ri_revision (xs[ia := info'] ! a) = ri_revision (xs ! a)"
  by (cases "ia < length xs"; cases "a = ia") (simp_all add: list_update_beyond)

lemma revisions_indexed_cong:
  "revisions q' = revisions q \<Longrightarrow> info_heap q' = info_heap q \<Longrightarrow>
   revisions_indexed q \<Longrightarrow> revisions_indexed q'"
  by (simp add: revisions_indexed_def)

lemma revisions_indexed_push:
  assumes "revisions_indexed q" "ia < length (info_heap q)"
    "ri_revision (info_heap q ! ia) = int (length (revisions q))"
    "revisions q' = revisions q @ [ia]" "info_heap q' = info_heap q"
  shows "revisions_indexed q'"
  using assms by (simp add: revisions_indexed_def)

lemma idx_cancel: "revisions_indexed q \<Longrightarrow> revisions_indexed (q\<lparr>cancel_calls := n\<rparr>)"
  by (erule revisions_indexed_cong[rotated 2]) simp_all

lemma idx_progress: "revisions_indexed q \<Longrightarrow> revisions_indexed (q\<lparr>progress_log := l\<rparr>)"
  by (erule revisions_indexed_cong[rotated 2]) simp_all

lemma idx_rep_heap: "revisions_indexed q \<Longrightarrow> revisions_indexed (q\<lparr>rep_heap := h\<rparr>)"
  by (erule revisions_indexed_cong[rotated 2]) simp_all

lemma idx_stats: "revisions_indexed q \<Longrightarrow> revisions_indexed (q\<lparr>stats := st\<rparr>)"
  by (erule revisions_indexed_cong[rotated 2]) simp_all

lemma idx_new_info:
  assumes "revisions_indexed q"
  shows "revisions_indexed (q\<lparr>info_heap := info_heap q @ [info]\<rparr>)"
proof (rule revisions_indexed_heap[OF assms])
  show "revisions (q\<lparr>info_heap := info_heap q @ [info]\<rparr>) = revisions q" by simp
  show "length (info_heap q) \<le> length (info_heap (q\<lparr>info_heap := info_heap q @ [info]\<rparr>))"
    by simp
  fix a assume "a < length (info_heap q)"
  then show "ri_revision (info_heap (q\<lparr>info_heap := info_heap q @ [info]\<rparr>) ! a)
             = ri_revision (info_heap q ! a)"
    by (simp add: nth_append)
qed

lemma idx_info:
  assumes "revisions_indexed q" "ri_revision info' = ri_revision (info_heap q ! ia)"
  shows "revisions_indexed (q\<lparr>info_heap := (info_heap q)[ia := info']\<rparr>)"
proof (rule revisions_indexed_heap[OF assms(1)])
  show "revisions (q\<lparr>info_heap := (info_heap q)[ia := info']\<rparr>) = revisions q" by simp
  show "length (info_heap q) \<le> length (info_heap (q\<lparr>info_heap := (info_heap q)[ia := info']\<rparr>))"
    by simp
  fix a assume "a < length (info_heap q)"
  show "ri_revision (info_heap (q\<lparr>info_heap := (info_heap q)[ia := info']\<rparr>) ! a)
             = ri_revision (info_heap q ! a)"
    using ri_revision_update[OF assms(2), of a] by simp
qed

lemma idx_push:
  assumes "revisions_indexed q" "ia < length (info_heap q)"
    "ri_revision (info_heap q ! ia) = int (length (revisions q))"
  shows "revisions_indexed (q\<lparr>revisions := revisions q @ [ia]\<rparr>)"
  by (rule revisions_indexed_push[OF assms]) simp_all

lemma evolves_indexed: "evolves q q' \<Longrightarrow> revisions_indexed q \<Longrightarrow> revisions_indexed q'"
proof (induction rule: evolves.induct)
  case (ev_refl q)
  then show ?case .
next
  case (ev_trans q q' q'')
  then show ?case by blast
next
  case (ev_cancel q n)
  then show ?case by (rule idx_cancel)
next
  case (ev_progress q r)
  then show ?case by (rule idx_progress)
next
  case (ev_new_info info q)
  then show ?case by (intro idx_new_info)
next
  case (ev_push ia q)
  then show ?case by (intro idx_push)
next
  case (ev_info info' q ia)
  then show ?case by (intro idx_info)
next
  case (ev_new_rep r idx q ia)
  have "revisions_indexed (q\<lparr>rep_heap := rep_heap q @ [r]\<rparr>)"
    using ev_new_rep.prems by (rule idx_rep_heap)
  then have "revisions_indexed (q\<lparr>rep_heap := rep_heap q @ [r]\<rparr>
      \<lparr>info_heap := (info_heap (q\<lparr>rep_heap := rep_heap q @ [r]\<rparr>))
                [ia := (info_heap q ! ia)\<lparr>representations :=
                   array_insert (representations (info_heap q ! ia)) (length (rep_heap q)) idx\<rparr>]\<rparr>)"
    by (rule idx_info) simp
  then show ?case by simp
next
  case (ev_reference k q t)
  then show ?case by (intro idx_rep_heap)
next
  case (ev_change q rs es r p k pa st)
  then show ?case by (intro idx_stats)
qed


lemma array_idx_indexed:
  assumes "revisions_indexed q" "0 \<le> r" "r < int (length (revisions q))"
  shows "\<exists>a. array_idx (revisions q) r = Some a \<and> a < length (info_heap q)
             \<and> ri_revision (info_heap q ! a) = r"
proof -
  let ?i = "nat r"
  have i: "?i < length (revisions q)" using assms(2,3) by simp
  from assms(1) have "map (\<lambda>ia. ri_revision (info_heap q ! ia)) (revisions q) ! ?i
                      = map int [0..<length (revisions q)] ! ?i"
    by (simp add: revisions_indexed_def)
  then have "ri_revision (info_heap q ! (revisions q ! ?i)) = r"
    using i assms(2) by simp
  moreover have "revisions q ! ?i < length (info_heap q)"
    using assms(1) i by (simp add: revisions_indexed_def list_all_length)
  ultimately show ?thesis using assms(2,3) by (simp add: array_idx_def)
qed

lemma array_idx_Some: "array_idx xs r = Some a \<Longrightarrow> 0 \<le> r \<and> r < int (length xs)"
  by (simp add: array_idx_def split: if_splits)

lemma find_representation_revision:
  assumes "revisions_indexed q"
    "find_representation q (Some ia) r off = (res, idx, Some ia')"
  shows "ri_revision (info_heap q ! ia') = r"
proof -
  from assms(2) have res: "resolve_info q ia r = Some ia'"
    by (auto simp: find_representation_alt split: option.splits if_splits)
  show ?thesis
  proof (cases "ri_revision (info_heap q ! ia) \<noteq> r")
    case True
    with res have a: "array_idx (revisions q) r = Some ia'" by (simp add: resolve_info_def)
    from array_idx_Some[OF a] have "0 \<le> r" "r < int (length (revisions q))" by simp_all
    from array_idx_indexed[OF assms(1) this] a show ?thesis by auto
  next
    case False
    with res show ?thesis by (simp add: resolve_info_def)
  qed
qed

text \<open>
  Claim C10. Throughout and after the traversal, the element at index \<open>i\<close> of
  \<^verbatim>\<open>query->revisions\<close> is the revision info whose revision is \<open>i\<close>: this holds of the
  query \<^verbatim>\<open>read_revisions\<close> ends with, whether it fails or not, when it starts with
  an empty array; every assignment the engine makes keeps it (\<open>evolves\<close>), and
  \<^verbatim>\<open>read_noderev\<close> makes only such assignments; and where it holds, a lookup by revision
  number (\<open>array_idx\<close>, and the lookup of \<open>find_representation\<close>) retrieves the
  revision info of exactly that revision. Revision numbers are unbounded integers
  here; the code itself assumes that they fit 31 bits.
\<close>

theorem revisions_indexed_by_revision:
  "(revisions q = [] \<and> read_revisions fuel q = Some (e, q') \<longrightarrow> revisions_indexed q')
   \<and> (revisions_indexed q1 \<and> evolves q1 q2 \<longrightarrow> revisions_indexed q2)
   \<and> (read_noderev n q1 c off ia = Some (e1, q3) \<longrightarrow> evolves q1 q3)
   \<and> (revisions_indexed q1 \<and> 0 \<le> r \<and> r < int (length (revisions q1)) \<longrightarrow>
        (\<exists>a. array_idx (revisions q1) r = Some a \<and> a < length (info_heap q1)
             \<and> ri_revision (info_heap q1 ! a) = r))
   \<and> (revisions_indexed q1 \<and> find_representation q1 (Some ia) r offs = (res, idx, Some ia') \<longrightarrow>
        ri_revision (info_heap q1 ! ia') = r)"
proof (intro conjI impI)
  assume a: "revisions q = [] \<and> read_revisions fuel q = Some (e, q')"
  then have "revisions_indexed q" by (simp add: revisions_indexed_def)
  with read_revisions_evolves[of fuel q e q'] a show "revisions_indexed q'"
    by (auto intro: evolves_indexed)
next
  assume "revisions_indexed q1 \<and> evolves q1 q2"
  then show "revisions_indexed q2" by (auto intro: evolves_indexed)
next
  assume "read_noderev n q1 c off ia = Some (e1, q3)"
  then show "evolves q1 q3" by (intro inner_evolves read_noderev_inner)
next
  assume "revisions_indexed q1 \<and> 0 \<le> r \<and> r < int (length (revisions q1))"
  then show "\<exists>a. array_idx (revisions q1) r = Some a \<and> a < length (info_heap q1)
             \<and> ri_revision (info_heap q1 ! a) = r"
    using array_idx_indexed by blast
next
  assume "revisions_indexed q1 \<and> find_representation q1 (Some ia) r offs = (res, idx, Some ia')"
  then show "ri_revision (info_heap q1 ! ia') = r"
    using find_representation_revision by blast
qed

theorem revisions_indexed_by_revision_witness:
  "\<exists>q e q'. create_query (example_fs 1 example_entries example_noderev) create_stats 0 0 0 0
              never_cancel = Inr q
           \<and> revisions q = []
           \<and> read_revisions 3 q = Some (e, q')
           \<and> length (revisions q') = 2
           \<and> revisions_indexed q'"
proof -
  have run: "(case create_query (example_fs 1 example_entries example_noderev) create_stats
                     0 0 0 0 never_cancel of
                Inl err \<Rightarrow> False
              | Inr q \<Rightarrow> revisions q = []
                  \<and> (case read_revisions 3 q of
                       None \<Rightarrow> False
                     | Some (e, q') \<Rightarrow> length (revisions q') = 2))"
    by code_simp
  then obtain q e q' where
    q: "create_query (example_fs 1 example_entries example_noderev) create_stats 0 0 0 0
          never_cancel = Inr q" "revisions q = []"
    and r: "read_revisions 3 q = Some (e, q')" "length (revisions q') = 2"
    by (auto split: sum.splits option.splits)
  from revisions_indexed_by_revision[of q 3 e q', THEN conjunct1] q(2) r(1)
  have "revisions_indexed q'" by blast
  with q r show ?thesis by blast
qed

subsection \<open>Callbacks, errors and the walk over the index\<close>

lemma evolves_stats:
  "evolves q q' \<Longrightarrow> aggregate_part (stats q') = aggregate_part (stats q)"
proof (induction rule: evolves.induct)
  case (ev_change q rs es r p k pa st)
  from add_change_largest[OF this] show ?case by simp
qed simp_all

lemma evolves_progress_log:
  "evolves q q' \<Longrightarrow>
   \<exists>l. progress_log q' = progress_log q @ l \<and> list_all (\<lambda>c. snd c = progress_baton q) l"
proof (induction rule: evolves.induct)
  case (ev_trans q q' q'')
  from evolves_const[OF ev_trans(1)] have b: "progress_baton q' = progress_baton q" by simp
  from ev_trans.IH obtain l1 l2 where
    "progress_log q' = progress_log q @ l1" "list_all (\<lambda>c. snd c = progress_baton q) l1"
    "progress_log q'' = progress_log q' @ l2" "list_all (\<lambda>c. snd c = progress_baton q') l2"
    by blast
  with b show ?case by (intro exI[of _ "l1 @ l2"]) simp
next
  case (ev_progress q r)
  show ?case by (intro exI[of _ "[(r, progress_baton q)]"]) simp
qed simp_all

lemma create_query_fields:
  "create_query f st pf pb cf cb impl = Inr q \<Longrightarrow>
   revisions q = [] \<and> stats q = st \<and> progress_log q = [] \<and> progress_baton q = pb
   \<and> progress_func q = pf"
  by (auto simp: create_query_def split: sum.splits)

text \<open>The three ways \<open>svn_fs_fs__get_stats\<close> ends.\<close>

lemma get_stats_cases:
  assumes "svn_fs_fs__get_stats fuel f pf pb cf cb impl = Some (e, st, lg)"
  obtains
    (no_query) err where "create_query f create_stats pf pf cf cb impl = Inl err"
      "e = Some err" "st = create_stats" "lg = []"
  | (failed) q err q' where "create_query f create_stats pf pf cf cb impl = Inr q"
      "read_revisions fuel q = Some (Some err, q')"
      "e = Some err" "st = stats q'" "lg = progress_log q'"
  | (succeeded) q q' where "create_query f create_stats pf pf cf cb impl = Inr q"
      "read_revisions fuel q = Some (None, q')" "e = None"
      "st = aggregate_stats (info_heap q') (rep_heap q') (revisions q') (stats q')"
      "lg = progress_log q'"
proof (cases "create_query f create_stats pf pf cf cb impl")
  case (Inl err)
  with assms have "e = Some err" "st = create_stats" "lg = []"
    by (auto simp: svn_fs_fs__get_stats_def)
  with Inl show ?thesis by (rule no_query)
next
  case (Inr q)
  from assms Inr obtain r where r: "read_revisions fuel q = Some r"
    by (cases "read_revisions fuel q") (auto simp: svn_fs_fs__get_stats_def)
  obtain e1 q' where r1: "r = (e1, q')" by (cases r) auto
  show ?thesis
  proof (cases e1)
    case None
    with assms Inr r r1 have "e = None"
      "st = aggregate_stats (info_heap q') (rep_heap q') (revisions q') (stats q')"
      "lg = progress_log q'"
      by (auto simp: svn_fs_fs__get_stats_def)
    with Inr r r1 None show ?thesis by (intro succeeded[of q q']) simp_all
  next
    case (Some err)
    with assms Inr r r1 have "e = Some err" "st = stats q'" "lg = progress_log q'"
      by (auto simp: svn_fs_fs__get_stats_def)
    with Inr r r1 Some show ?thesis by (intro failed[of q err q']) simp_all
  qed
qed

lemma get_stats_log:
  assumes "svn_fs_fs__get_stats fuel f pf pb cf cb impl = Some (e, st, lg)"
  shows "list_all (\<lambda>c. snd c = pf) lg"
  using assms
proof (cases rule: get_stats_cases)
  case (no_query err)
  then show ?thesis by simp
next
  case (failed q err q')
  from create_query_fields[OF failed(1)] read_revisions_evolves[OF failed(2)]
  have "evolves q q'" "progress_log q = []" "progress_baton q = pf" by simp_all
  with evolves_progress_log[of q q'] failed(5) show ?thesis by auto
next
  case (succeeded q q')
  from create_query_fields[OF succeeded(1)] read_revisions_evolves[OF succeeded(2)]
  have "evolves q q'" "progress_log q = []" "progress_baton q = pf" by simp_all
  with evolves_progress_log[of q q'] succeeded(5) show ?thesis by auto
qed

text \<open>
  Claim C1, as the code has it. \<^verbatim>\<open>svn_fs_fs__get_stats\<close> calls \<^verbatim>\<open>create_query\<close> with
  \<^verbatim>\<open>progress_func\<close> in the place of the progress baton, so every call of the progress
  callback during the traversal gets the callback itself as its baton, whatever
  \<^verbatim>\<open>progress_baton\<close> the caller passed: every entry of the log of the calls has
  \<open>progress_fn\<close> as its baton.
\<close>

theorem get_stats_progress_baton:
  "svn_fs_fs__get_stats fuel f progress_fn progress_btn cancel_fn cancel_btn impl
     = Some (e, st, lg)
   \<longrightarrow> list_all (\<lambda>call. snd call = progress_fn) lg"
  using get_stats_log by blast

lemma get_stats_success:
  "create_query f create_stats pf pf cf cb impl = Inr q \<Longrightarrow>
   read_revisions fuel q = Some (None, q') \<Longrightarrow>
   svn_fs_fs__get_stats fuel f pf pb cf cb impl =
     Some (None, aggregate_stats (info_heap q') (rep_heap q') (revisions q') (stats q'),
           progress_log q')"
  by (simp add: svn_fs_fs__get_stats_def)

theorem get_stats_progress_baton_witness:
  "\<exists>e st. svn_fs_fs__get_stats 3 (example_fs 0 example_entries example_noderev) 7 9 0 0
             never_cancel = Some (e, st, [(0, 7)])
          \<and> list_all (\<lambda>call. snd call = (7 :: nat)) [(0 :: int, 7 :: nat)]"
proof -
  have run: "(case create_query (example_fs 0 example_entries example_noderev) create_stats
                     7 7 0 0 never_cancel of
                Inl err \<Rightarrow> False
              | Inr q \<Rightarrow>
                  (case read_revisions 3 q of
                     Some (None, q') \<Rightarrow> progress_log q' = [(0, 7)]
                   | _ \<Rightarrow> False))"
    by code_simp
  then obtain q q' where
    "create_query (example_fs 0 example_entries example_noderev) create_stats
                     7 7 0 0 never_cancel = Inr q"
    "read_revisions 3 q = Some (None, q')" "progress_log q' = [(0, 7)]"
    by (auto split: sum.splits option.splits)
  from get_stats_success[OF this(1,2), of 9] this(3) obtain st where
    r: "svn_fs_fs__get_stats 3 (example_fs 0 example_entries example_noderev) 7 9 0 0
          never_cancel = Some (None, st, [(0, 7)])"
    by simp
  from get_stats_progress_baton[of 3 _ 7 9 0 0 never_cancel None st "[(0, 7)]"] r
  have "list_all (\<lambda>call. snd call = (7 :: nat)) [(0 :: int, 7 :: nat)]" by blast
  with r show ?thesis by blast
qed

lemma get_stats_failure:
  assumes "svn_fs_fs__get_stats fuel f pf pb cf cb impl = Some (Some err, st, lg)"
  shows "aggregate_part st = aggregate_part create_stats
         \<and> (create_query f create_stats pf pf cf cb impl = Inl err
            \<or> (\<exists>q q'. create_query f create_stats pf pf cf cb impl = Inr q
                  \<and> read_revisions fuel q = Some (Some err, q') \<and> st = stats q'))"
  using assms
proof (cases rule: get_stats_cases)
  case (no_query err')
  then show ?thesis by simp
next
  case (failed q err' q')
  from create_query_fields[OF failed(1)] read_revisions_evolves[OF failed(2)]
  have "evolves q q'" "stats q = create_stats" by simp_all
  with evolves_stats[of q q'] failed show ?thesis by auto
next
  case (succeeded q q')
  then show ?thesis by simp
qed

text \<open>
  Claim C7, amended. When \<^verbatim>\<open>svn_fs_fs__get_stats\<close> returns an error, it is the error of
  \<^verbatim>\<open>create_query\<close> or the error the traversal failed with, and aggregation has not
  run: every field of the statistics that \<^verbatim>\<open>add_change\<close> does not write is as
  \<^verbatim>\<open>create_stats\<close> left it. An error of the traversal is returned as it is, together
  with the statistics the traversal had reached: \<^verbatim>\<open>*stats\<close> is assigned before the
  traversal starts. The error of the cancel callback ends the loops at once, and so
  does the error of a rev or pack file in \<^verbatim>\<open>read_revisions\<close>. The progress callback
  returns nothing and cannot cancel.
\<close>

theorem get_stats_errors:
  "(svn_fs_fs__get_stats fuel f pf pb cf cb impl = Some (Some err, st, lg) \<longrightarrow>
      aggregate_part st = aggregate_part create_stats
      \<and> (create_query f create_stats pf pf cf cb impl = Inl err
         \<or> (\<exists>q q'. create_query f create_stats pf pf cf cb impl = Inr q
               \<and> read_revisions fuel q = Some (Some err, q') \<and> st = stats q')))
   \<and> (create_query f create_stats pf pf cf cb impl = Inr q0
        \<and> read_revisions fuel q0 = Some (Some err, q1) \<longrightarrow>
      svn_fs_fs__get_stats fuel f pf pb cf cb impl = Some (Some err, stats q1, progress_log q1))
   \<and> (check_cancel q = (Some err, q2) \<longrightarrow>
        read_phys_revision_file fuel q revision = Some (Some err, q2)
        \<and> phys_pack_loop fuel (Suc k) q base rf fsz i = Some (Some err, q2)
        \<and> (offset < mx \<longrightarrow> log_blocks fuel (Suc n) q base rf mx offset = Some (Some err, q2)))
   \<and> ((if use_log_addressing (fs q) then read_log_revision_file fuel q revision
         else read_phys_revision_file fuel q revision) = Some (Some err, q2) \<longrightarrow>
        read_unpacked_revs (Suc k) fuel q revision = Some (Some err, q2))
   \<and> (revision < min_unpacked_rev q
        \<and> (if use_log_addressing (fs q) then read_log_pack_file fuel q revision
            else read_phys_pack_file fuel q revision) = Some (Some err, q2) \<longrightarrow>
        read_packed_revs fuel (Suc n) q revision = Some (Some err, q2, revision))"
proof (intro conjI impI)
  assume "svn_fs_fs__get_stats fuel f pf pb cf cb impl = Some (Some err, st, lg)"
  from get_stats_failure[OF this]
  show "aggregate_part st = aggregate_part create_stats"
    "create_query f create_stats pf pf cf cb impl = Inl err
         \<or> (\<exists>q q'. create_query f create_stats pf pf cf cb impl = Inr q
               \<and> read_revisions fuel q = Some (Some err, q') \<and> st = stats q')"
    by blast+
next
  assume "create_query f create_stats pf pf cf cb impl = Inr q0
        \<and> read_revisions fuel q0 = Some (Some err, q1)"
  then show "svn_fs_fs__get_stats fuel f pf pb cf cb impl
               = Some (Some err, stats q1, progress_log q1)"
    by (simp add: svn_fs_fs__get_stats_def)
next
  assume c: "check_cancel q = (Some err, q2)"
  then show "read_phys_revision_file fuel q revision = Some (Some err, q2)"
    by (simp add: read_phys_revision_file_def)
  from c show "phys_pack_loop fuel (Suc k) q base rf fsz i = Some (Some err, q2)" by simp
  assume "offset < mx"
  with c show "log_blocks fuel (Suc n) q base rf mx offset = Some (Some err, q2)" by simp
next
  assume "(if use_log_addressing (fs q) then read_log_revision_file fuel q revision
         else read_phys_revision_file fuel q revision) = Some (Some err, q2)"
  then show "read_unpacked_revs (Suc k) fuel q revision = Some (Some err, q2)" by simp
next
  assume "revision < min_unpacked_rev q
        \<and> (if use_log_addressing (fs q) then read_log_pack_file fuel q revision
            else read_phys_pack_file fuel q revision) = Some (Some err, q2)"
  then show "read_packed_revs fuel (Suc n) q revision = Some (Some err, q2, revision)" by simp
qed

theorem get_stats_errors_witness:
  "\<exists>st lg. svn_fs_fs__get_stats 3 (example_fs 1 example_entries example_noderev) 0 0 1 0
             cancel_second = Some (Some SVN_ERR_CANCELLED, st, lg)
          \<and> aggregate_part st = aggregate_part create_stats"
proof -
  have run: "(case svn_fs_fs__get_stats 3 (example_fs 1 example_entries example_noderev) 0 0 1 0
                     cancel_second of
                Some (Some err, st, lg) \<Rightarrow> err = SVN_ERR_CANCELLED
              | _ \<Rightarrow> False)"
    by code_simp
  then obtain st lg where
    r: "svn_fs_fs__get_stats 3 (example_fs 1 example_entries example_noderev) 0 0 1 0
          cancel_second = Some (Some SVN_ERR_CANCELLED, st, lg)"
    by (auto split: option.splits)
  from get_stats_errors[THEN conjunct1, THEN mp, OF r]
  have "aggregate_part st = aggregate_part create_stats" by blast
  with r show ?thesis by blast
qed

text \<open>
  A cancellation before the second of two revisions: \<^verbatim>\<open>svn_fs_fs__get_stats\<close> returns
  \<^verbatim>\<open>SVN_ERR_CANCELLED\<close>, and the statistics it leaves in \<^verbatim>\<open>*stats\<close> hold the change of
  the first revision, in the histogram of the representation sizes and in the list of
  the largest changes.
\<close>

theorem get_stats_errors_counterexample:
  "(case svn_fs_fs__get_stats 3 (example_fs 1 example_entries example_noderev) 0 0 1 0
           cancel_second of
      Some (Some SVN_ERR_CANCELLED, st, lg) \<Rightarrow>
        hl_count (total (rep_size_histogram st)) = 1
        \<and> hl_count (total (rep_size_histogram create_stats)) = 0
        \<and> lci_size (hd (lc_changes (largest_changes st))) = 5
        \<and> lci_path (hd (lc_changes (largest_changes st))) = ''/trunk/a.c''
    | _ \<Rightarrow> False)"
  by code_simp






subsection \<open>Interning representations\<close>

lemma offsets_ascending_nth:
  "offsets_ascending xs \<Longrightarrow> i < j \<Longrightarrow> j < length xs \<Longrightarrow> rep_offset (xs ! i) < rep_offset (xs ! j)"
  by (simp add: offsets_ascending_def sorted_wrt_iff_nth_less)

lemma offsets_ascending_le:
  "offsets_ascending xs \<Longrightarrow> i \<le> j \<Longrightarrow> j < length xs \<Longrightarrow> rep_offset (xs ! i) \<le> rep_offset (xs ! j)"
  using offsets_ascending_nth[of xs i j] by (cases "i = j") auto

lemma bsearch_lower_bound_spec:
  assumes "offsets_ascending xs"
  shows "lo \<le> hi \<Longrightarrow> hi \<le> length xs
    \<Longrightarrow> \<forall>j < lo. rep_offset (xs ! j) < key
    \<Longrightarrow> \<forall>j. hi \<le> j \<and> j < length xs \<longrightarrow> key \<le> rep_offset (xs ! j)
    \<Longrightarrow> lo \<le> bsearch_lower_bound xs key lo hi \<and> bsearch_lower_bound xs key lo hi \<le> hi
        \<and> (\<forall>j < bsearch_lower_bound xs key lo hi. rep_offset (xs ! j) < key)
        \<and> (\<forall>j. bsearch_lower_bound xs key lo hi \<le> j \<and> j < length xs
               \<longrightarrow> key \<le> rep_offset (xs ! j))"
proof (induction "hi - lo" arbitrary: lo hi rule: less_induct)
  case less
  show ?case
  proof (cases "lo < hi")
    case False
    with less.prems have "bsearch_lower_bound xs key lo hi = lo" "lo = hi"
      by (simp_all add: bsearch_lower_bound.simps)
    with less.prems show ?thesis by simp
  next
    case True
    define mid where "mid = lo + (hi - lo) div 2"
    from True have m: "lo \<le> mid" "mid < hi" by (simp_all add: mid_def)
    with less.prems have ml: "mid < length xs" by simp
    show ?thesis
    proof (cases "rep_offset (xs ! mid) < key")
      case c: True
      have eq: "bsearch_lower_bound xs key lo hi = bsearch_lower_bound xs key (mid + 1) hi"
        using True c
        by (subst bsearch_lower_bound.simps)
           (simp add: compare_representation_offsets_def mid_def Let_def)
      have below: "\<forall>j < mid + 1. rep_offset (xs ! j) < key"
      proof (intro allI impI)
        fix j assume "j < mid + 1"
        then have "j \<le> mid" by simp
        from offsets_ascending_le[OF assms this ml] c show "rep_offset (xs ! j) < key" by simp
      qed
      have "hi - (mid + 1) < hi - lo" using m by simp
      from less.hyps[OF this _ less.prems(2) below less.prems(4)] m
      show ?thesis unfolding eq by simp
    next
      case c: False
      have eq: "bsearch_lower_bound xs key lo hi = bsearch_lower_bound xs key lo mid"
        using True c
        by (subst bsearch_lower_bound.simps)
           (simp add: compare_representation_offsets_def mid_def Let_def)
      have above: "\<forall>j. mid \<le> j \<and> j < length xs \<longrightarrow> key \<le> rep_offset (xs ! j)"
      proof (intro allI impI)
        fix j assume "mid \<le> j \<and> j < length xs"
        from offsets_ascending_le[OF assms, of mid j] this c
        show "key \<le> rep_offset (xs ! j)" by simp
      qed
      have "mid - lo < hi - lo" using m by simp
      from less.hyps[OF this m(1) _ less.prems(3) above] ml m
      show ?thesis unfolding eq by simp
    qed
  qed
qed

text \<open>The index the search ends with: everything before it is below the key, nothing from it on.\<close>

lemma lower_bound_spec:
  assumes "offsets_ascending xs"
  shows "bsearch_lower_bound xs key 0 (length xs) \<le> length xs
        \<and> (\<forall>j < bsearch_lower_bound xs key 0 (length xs). rep_offset (xs ! j) < key)
        \<and> (\<forall>j. bsearch_lower_bound xs key 0 (length xs) \<le> j \<and> j < length xs
               \<longrightarrow> key \<le> rep_offset (xs ! j))"
  using bsearch_lower_bound_spec[OF assms, of 0 "length xs" key] by simp

lemma lower_bound_unique:
  assumes "offsets_ascending xs" "i < length xs" "rep_offset (xs ! i) = key"
  shows "bsearch_lower_bound xs key 0 (length xs) = i"
proof -
  let ?r = "bsearch_lower_bound xs key 0 (length xs)"
  from lower_bound_spec[OF assms(1), of key] have
    b: "\<forall>j < ?r. rep_offset (xs ! j) < key"
    and a: "\<forall>j. ?r \<le> j \<and> j < length xs \<longrightarrow> key \<le> rep_offset (xs ! j)" by blast+
  have "\<not> i < ?r" using b assms(3) by auto
  moreover have "\<not> ?r < i"
  proof
    assume l: "?r < i"
    with a assms(2) have "key \<le> rep_offset (xs ! ?r)" by simp
    moreover from offsets_ascending_nth[OF assms(1) l assms(2)] assms(3)
    have "rep_offset (xs ! ?r) < key" by simp
    ultimately show False by simp
  qed
  ultimately show ?thesis by simp
qed

text \<open>The search finds a representation with the offset exactly when there is one.\<close>

lemma found_iff_present:
  assumes "offsets_ascending xs"
  shows "(bsearch_lower_bound xs key 0 (length xs) < length xs
          \<and> rep_offset (xs ! bsearch_lower_bound xs key 0 (length xs)) = key)
         = (key \<in> set (map rep_offset xs))"
proof
  assume "bsearch_lower_bound xs key 0 (length xs) < length xs
          \<and> rep_offset (xs ! bsearch_lower_bound xs key 0 (length xs)) = key"
  then show "key \<in> set (map rep_offset xs)" by (metis nth_mem image_eqI set_map)
next
  assume "key \<in> set (map rep_offset xs)"
  then obtain i where "i < length xs" "rep_offset (xs ! i) = key"
    by (auto simp: in_set_conv_nth)
  with lower_bound_unique[OF assms this] show "bsearch_lower_bound xs key 0 (length xs) < length xs
          \<and> rep_offset (xs ! bsearch_lower_bound xs key 0 (length xs)) = key" by simp
qed

lemma offsets_ascending_count:
  "offsets_ascending xs \<Longrightarrow> length (filter (\<lambda>r. rep_offset r = key) xs) \<le> 1"
proof (induction xs)
  case Nil then show ?case by simp
next
  case (Cons x xs)
  then have "offsets_ascending xs" "\<forall>y \<in> set xs. rep_offset x < rep_offset y"
    by (auto simp: offsets_ascending_def)
  with Cons.IH show ?case by (auto simp: filter_empty_conv)
qed

lemma offsets_ascending_insert:
  assumes "offsets_ascending xs"
    and "idx = bsearch_lower_bound xs (rep_offset x) 0 (length xs)"
    and "\<not> (idx < length xs \<and> rep_offset (xs ! idx) = rep_offset x)"
  shows "offsets_ascending (array_insert xs x idx)"
proof -
  from lower_bound_spec[OF assms(1), of "rep_offset x"] assms(2) have
    le: "idx \<le> length xs"
    and b: "\<forall>j < idx. rep_offset (xs ! j) < rep_offset x"
    and a: "\<forall>j. idx \<le> j \<and> j < length xs \<longrightarrow> rep_offset x \<le> rep_offset (xs ! j)" by blast+
  have a': "\<forall>j. idx \<le> j \<and> j < length xs \<longrightarrow> rep_offset x < rep_offset (xs ! j)"
  proof (intro allI impI)
    fix j assume j: "idx \<le> j \<and> j < length xs"
    show "rep_offset x < rep_offset (xs ! j)"
    proof (cases "j = idx")
      case True
      with j assms(3) a show ?thesis by (metis order_le_imp_less_or_eq)
    next
      case False
      with j have "idx < j" by simp
      from offsets_ascending_nth[OF assms(1) this] j a show ?thesis
        by (metis order_le_less_trans order_refl order.strict_trans1 le_less_trans)
    qed
  qed
  have t: "\<forall>y \<in> set (take idx xs). rep_offset y < rep_offset x"
    using b le by (auto simp: in_set_conv_nth)
  have d: "\<forall>y \<in> set (drop idx xs). rep_offset x < rep_offset y"
    using a' le by (auto simp: in_set_conv_nth)
  have s: "sorted_wrt (<) (map rep_offset (take idx xs @ drop idx xs))"
    using assms(1) by (simp add: offsets_ascending_def)
  then have "sorted_wrt (<) (map rep_offset (take idx xs))"
    "sorted_wrt (<) (map rep_offset (drop idx xs))"
    "\<forall>y \<in> set (take idx xs). \<forall>z \<in> set (drop idx xs). rep_offset y < rep_offset z"
    unfolding map_append sorted_wrt_append by auto
  with t d show ?thesis
    unfolding offsets_ascending_def array_insert_def
    by (auto simp: sorted_wrt_append)
qed


lemma reps_sorted_nth:
  "reps_sorted q = (\<forall>i < length (info_heap q). vector_ok (rep_heap q) (representations (info_heap q ! i)))"
  by (simp add: reps_sorted_def list_all_length)

lemma map_heap_append:
  "list_all (\<lambda>a. a < length heap) rs \<Longrightarrow> map (\<lambda>a. (heap @ [r]) ! a) rs = map (\<lambda>a. heap ! a) rs"
  by (induction rs) (simp_all add: nth_append)

lemma vector_ok_append:
  assumes "vector_ok heap rs"
  shows "vector_ok (heap @ [r]) rs"
proof -
  from assms have v: "list_all (\<lambda>a. a < length heap) rs"
    and s: "offsets_ascending (map (\<lambda>a. heap ! a) rs)" by (simp_all add: vector_ok_def)
  have "offsets_ascending (map (\<lambda>a. (heap @ [r]) ! a) rs)"
    by (simp only: map_heap_append[OF v] s)
  moreover have "list_all (\<lambda>a. a < length (heap @ [r])) rs"
    using v by (auto simp: list_all_iff)
  ultimately show ?thesis by (simp only: vector_ok_def simp_thms)
qed

lemma map_offset_update:
  "rep_offset r' = rep_offset (heap ! t) \<Longrightarrow>
   map rep_offset (map (\<lambda>a. heap[t := r'] ! a) rs) = map rep_offset (map (\<lambda>a. heap ! a) rs)"
proof (induction rs)
  case Nil then show ?case by simp
next
  case (Cons a rs)
  then show ?case
    by (cases "t < length heap") (simp_all add: nth_list_update list_update_beyond)
qed

lemma vector_ok_update:
  assumes "vector_ok heap rs" "rep_offset r' = rep_offset (heap ! t)"
  shows "vector_ok (heap[t := r']) rs"
proof -
  from assms have v: "list_all (\<lambda>a. a < length heap) rs"
    and s: "sorted_wrt (<) (map rep_offset (map (\<lambda>a. heap ! a) rs))"
    by (simp_all only: vector_ok_def offsets_ascending_def)
  have "sorted_wrt (<) (map rep_offset (map (\<lambda>a. heap[t := r'] ! a) rs))"
    by (simp only: map_offset_update[OF assms(2)] s)
  then have "offsets_ascending (map (\<lambda>a. heap[t := r'] ! a) rs)"
    by (simp only: offsets_ascending_def)
  moreover have "list_all (\<lambda>a. a < length (heap[t := r'])) rs"
    using v by simp
  ultimately show ?thesis by (simp only: vector_ok_def simp_thms)
qed

lemma rep_offset_add_reference: "rep_offset (add_reference r k) = rep_offset r"
  by (simp add: add_reference_def Let_def)

lemma map_array_insert:
  "map f (array_insert xs x idx) = array_insert (map f xs) (f x) idx"
  by (simp add: array_insert_def take_map drop_map)

text \<open>The vector after an insertion, read through a heap that holds \<open>r'\<close> at the new address.\<close>

lemma map_heap_insert:
  assumes "list_all (\<lambda>a. a < length heap) rs"
  shows "map (\<lambda>a. ((heap @ [r])[length heap := r']) ! a) (array_insert rs (length heap) idx)
         = array_insert (map (\<lambda>a. heap ! a) rs) r' idx"
proof -
  have old: "map (\<lambda>a. ((heap @ [r])[length heap := r']) ! a) ys = map (\<lambda>a. heap ! a) ys"
    if "list_all (\<lambda>a. a < length heap) ys" for ys
    using that by (induction ys) (simp_all add: nth_append nth_list_update)
  have t: "list_all (\<lambda>a. a < length heap) (take idx rs)"
    "list_all (\<lambda>a. a < length heap) (drop idx rs)"
    using assms by (auto simp: list_all_iff dest: in_set_takeD in_set_dropD)
  have n: "((heap @ [r])[length heap := r']) ! length heap = r'" by simp
  show ?thesis
    unfolding array_insert_def map_append list.map take_map drop_map
      old[OF t(1)] old[OF t(2)] n
    by (rule refl)
qed

lemma list_all_array_insert:
  "list_all P xs \<Longrightarrow> P x \<Longrightarrow> list_all P (array_insert xs x idx)"
  by (auto simp: array_insert_def list_all_iff dest: in_set_takeD in_set_dropD)

lemma vector_ok_insert:
  assumes "vector_ok heap rs"
    and "idx = bsearch_lower_bound (map (\<lambda>a. heap ! a) rs) (rep_offset r) 0 (length rs)"
    and "\<not> (idx < length rs \<and> rep_offset (map (\<lambda>a. heap ! a) rs ! idx) = rep_offset r)"
  shows "vector_ok (heap @ [r]) (array_insert rs (length heap) idx)"
proof -
  from assms(1) have v: "list_all (\<lambda>a. a < length heap) rs"
    and s: "offsets_ascending (map (\<lambda>a. heap ! a) rs)" by (simp_all add: vector_ok_def)
  from map_heap_insert[OF v, of r r idx]
  have m: "map (\<lambda>a. (heap @ [r]) ! a) (array_insert rs (length heap) idx)
           = array_insert (map (\<lambda>a. heap ! a) rs) r idx"
    by simp
  have "offsets_ascending (array_insert (map (\<lambda>a. heap ! a) rs) r idx)"
    by (rule offsets_ascending_insert[OF s]) (use assms(2,3) in simp_all)
  moreover have "list_all (\<lambda>a. a < length (heap @ [r])) (array_insert rs (length heap) idx)"
    by (rule list_all_array_insert) (use v in \<open>auto simp: list_all_iff\<close>)
  ultimately show ?thesis by (simp add: vector_ok_def m)
qed

lemma reps_sorted_cong:
  "info_heap q' = info_heap q \<Longrightarrow> rep_heap q' = rep_heap q \<Longrightarrow> reps_sorted q' = reps_sorted q"
  by (simp add: reps_sorted_def)

lemma srt_cancel: "reps_sorted q \<Longrightarrow> reps_sorted (q\<lparr>cancel_calls := n\<rparr>)"
  by (simp add: reps_sorted_def)

lemma srt_progress: "reps_sorted q \<Longrightarrow> reps_sorted (q\<lparr>progress_log := l\<rparr>)"
  by (simp add: reps_sorted_def)

lemma srt_push: "reps_sorted q \<Longrightarrow> reps_sorted (q\<lparr>revisions := l\<rparr>)"
  by (simp add: reps_sorted_def)

lemma srt_stats: "reps_sorted q \<Longrightarrow> reps_sorted (q\<lparr>stats := st\<rparr>)"
  by (simp add: reps_sorted_def)

lemma srt_new_info:
  "reps_sorted q \<Longrightarrow> representations info = [] \<Longrightarrow>
   reps_sorted (q\<lparr>info_heap := info_heap q @ [info]\<rparr>)"
  by (simp add: reps_sorted_def vector_ok_def offsets_ascending_def)

lemma srt_info:
  assumes "reps_sorted q" "representations info' = representations (info_heap q ! ia)"
  shows "reps_sorted (q\<lparr>info_heap := (info_heap q)[ia := info']\<rparr>)"
  unfolding reps_sorted_nth
proof (intro allI impI)
  fix i assume "i < length (info_heap (q\<lparr>info_heap := (info_heap q)[ia := info']\<rparr>))"
  then have i: "i < length (info_heap q)" by simp
  with assms(1) have "vector_ok (rep_heap q) (representations (info_heap q ! i))"
    by (simp add: reps_sorted_nth)
  with assms(2) i
  show "vector_ok (rep_heap (q\<lparr>info_heap := (info_heap q)[ia := info']\<rparr>))
          (representations (info_heap (q\<lparr>info_heap := (info_heap q)[ia := info']\<rparr>) ! i))"
    by (cases "i = ia") simp_all
qed

lemma srt_reference:
  assumes "reps_sorted q"
  shows "reps_sorted (q\<lparr>rep_heap := (rep_heap q)[t := add_reference (rep_heap q ! t) k]\<rparr>)"
  using assms vector_ok_update[of "rep_heap q" _ "add_reference (rep_heap q ! t) k" t]
  by (simp add: reps_sorted_def list_all_iff rep_offset_add_reference)

lemma srt_new_rep:
  assumes "reps_sorted q"
    and "idx = bsearch_lower_bound (reps_of q ia) (rep_offset r) 0 (length (reps_of q ia))"
    and "\<not> (idx < length (reps_of q ia) \<and> rep_offset (reps_of q ia ! idx) = rep_offset r)"
  shows "reps_sorted
           (q\<lparr>rep_heap := rep_heap q @ [r],
              info_heap := (info_heap q)
                [ia := (info_heap q ! ia)\<lparr>representations :=
                   array_insert (representations (info_heap q ! ia)) (length (rep_heap q)) idx\<rparr>]\<rparr>)"
    (is "reps_sorted ?q'")
  unfolding reps_sorted_nth
proof (intro allI impI)
  fix i assume "i < length (info_heap ?q')"
  then have i: "i < length (info_heap q)" by simp
  with assms(1) have v: "vector_ok (rep_heap q) (representations (info_heap q ! i))"
    by (simp add: reps_sorted_nth)
  show "vector_ok (rep_heap ?q') (representations (info_heap ?q' ! i))"
  proof (cases "i = ia")
    case False
    with i vector_ok_append[OF v, of r] show ?thesis by simp
  next
    case True
    have "vector_ok (rep_heap q @ [r])
            (array_insert (representations (info_heap q ! ia)) (length (rep_heap q)) idx)"
      by (rule vector_ok_insert) (use v True assms(2,3) in \<open>simp_all add: reps_of_def\<close>)
    with True i show ?thesis by simp
  qed
qed

lemma evolves_reps_sorted: "evolves q q' \<Longrightarrow> reps_sorted q \<Longrightarrow> reps_sorted q'"
proof (induction rule: evolves.induct)
  case (ev_refl q) then show ?case by simp
next
  case (ev_trans q q' q'') then show ?case by simp
next
  case (ev_cancel q n) then show ?case by (rule srt_cancel)
next
  case (ev_progress q r) then show ?case by (rule srt_progress)
next
  case (ev_new_info info q) then show ?case by (simp add: srt_new_info)
next
  case (ev_push ia q) then show ?case by (simp add: srt_push)
next
  case (ev_info info' q ia) then show ?case by (simp add: srt_info)
next
  case (ev_new_rep r idx q ia)
  from srt_new_rep[OF ev_new_rep(5,3,4)] show ?case .
next
  case (ev_reference k q t) then show ?case by (simp add: srt_reference)
next
  case (ev_change q rs es r p k pa st) then show ?case by (simp add: srt_stats)
qed


lemma reps_sorted_vector:
  "reps_sorted q \<Longrightarrow> ib < length (info_heap q)
   \<Longrightarrow> vector_ok (rep_heap q) (representations (info_heap q ! ib))"
  by (simp add: reps_sorted_nth)

lemma reps_sorted_ascending:
  "reps_sorted q \<Longrightarrow> ib < length (info_heap q) \<Longrightarrow> offsets_ascending (reps_of q ib)"
  using reps_sorted_vector[of q ib] by (simp add: vector_ok_def reps_of_def)

lemma hit_iff_present:
  assumes "reps_sorted q" "ib < length (info_heap q)"
  shows "hit q ib off = (off \<in> set (map rep_offset (reps_of q ib)))"
  using found_iff_present[OF reps_sorted_ascending[OF assms], of off]
  by (simp only: hit_def lower_bound_of_def)

lemma reps_unique:
  assumes "reps_sorted q" "ib < length (info_heap q)"
  shows "length (filter (\<lambda>r. rep_offset r = off) (reps_of q ib)) \<le> 1"
  by (rule offsets_ascending_count[OF reps_sorted_ascending[OF assms]])

lemma srt_heap_update:
  assumes "reps_sorted q" "rep_offset r' = rep_offset (rep_heap q ! t)"
  shows "reps_sorted (q\<lparr>rep_heap := (rep_heap q)[t := r']\<rparr>)"
  using assms vector_ok_update[of "rep_heap q" _ r' t]
  by (simp add: reps_sorted_def list_all_iff)

lemma inserted_fields:
  "rep_heap (inserted q ib r r1) = (rep_heap q @ [r])[length (rep_heap q) := r1]"
  "info_heap (inserted q ib r r1) = info_heap (insert_rep q ib r)"
  "revisions (inserted q ib r r1) = revisions q"
  "rep_heap (inserted q ib r r1) ! length (rep_heap q) = r1"
  "length (rep_heap (inserted q ib r r1)) = Suc (length (rep_heap q))"
  by (simp_all add: inserted_def insert_rep_def)

lemma inserted_overwrite:
  "(inserted q ib r r1)\<lparr>rep_heap := (rep_heap (inserted q ib r r1))[length (rep_heap q) := r2]\<rparr>
   = inserted q ib r r2"
  by (simp add: inserted_def)

lemma inserted_representations:
  "ib < length (info_heap q) \<Longrightarrow>
   representations (info_heap (inserted q ib r r1) ! ib)
     = array_insert (representations (info_heap q ! ib)) (length (rep_heap q))
         (lower_bound_of q ib (rep_offset r))"
  by (simp add: inserted_def insert_rep_def)

lemma inserted_resolve:
  "resolve_info (inserted q ib r r1) ia rv = resolve_info q ia rv"
proof -
  have "ri_revision (info_heap (inserted q ib r r1) ! ia) = ri_revision (info_heap q ! ia)"
    by (cases "ib < length (info_heap q)"; cases "ia = ib")
       (simp_all add: inserted_def insert_rep_def list_update_beyond)
  then show ?thesis by (simp add: resolve_info_def inserted_fields)
qed

lemma inserted_reps_of:
  assumes "reps_sorted q" "ib < length (info_heap q)"
  shows "reps_of (inserted q ib r r1) ib
         = array_insert (reps_of q ib) r1 (lower_bound_of q ib (rep_offset r))"
proof -
  from reps_sorted_vector[OF assms]
  have v: "list_all (\<lambda>a. a < length (rep_heap q)) (representations (info_heap q ! ib))"
    by (simp add: vector_ok_def)
  show ?thesis
    unfolding reps_of_def inserted_representations[OF assms(2)] inserted_fields(1)
    by (rule map_heap_insert[OF v])
qed

lemma array_insert_nth:
  "idx \<le> length xs \<Longrightarrow> array_insert xs x idx ! idx = x"
  by (simp add: array_insert_def nth_append)

lemma array_insert_length: "length (array_insert xs x idx) = Suc (length xs)"
  by (simp add: array_insert_def)

lemma inserted_found:
  assumes "reps_sorted q" "ib < length (info_heap q)" "\<not> hit q ib (rep_offset r)"
    and "rep_offset r1 = rep_offset r"
  shows "offsets_ascending (reps_of (inserted q ib r r1) ib)"
    and "lower_bound_of (inserted q ib r r1) ib (rep_offset r) = lower_bound_of q ib (rep_offset r)"
    and "hit (inserted q ib r r1) ib (rep_offset r)"
    and "representations (info_heap (inserted q ib r r1) ! ib)
           ! lower_bound_of (inserted q ib r r1) ib (rep_offset r) = length (rep_heap q)"
    and "length (filter (\<lambda>x. rep_offset x = rep_offset r) (reps_of (inserted q ib r r1) ib)) = 1"
proof -
  let ?xs = "reps_of q ib"
  let ?idx = "lower_bound_of q ib (rep_offset r)"
  let ?ys = "array_insert ?xs r1 ?idx"
  have asc: "offsets_ascending ?xs" by (rule reps_sorted_ascending[OF assms(1,2)])
  from lower_bound_spec[OF asc, of "rep_offset r"] have le: "?idx \<le> length ?xs"
    by (simp add: lower_bound_of_def)
  have ys: "reps_of (inserted q ib r r1) ib = ?ys" by (rule inserted_reps_of[OF assms(1,2)])
  have "offsets_ascending ?ys"
    by (rule offsets_ascending_insert[OF asc])
       (use assms(3,4) in \<open>simp_all add: hit_def lower_bound_of_def\<close>)
  then show a: "offsets_ascending (reps_of (inserted q ib r r1) ib)" by (simp only: ys)
  have n: "?idx < length ?ys" "rep_offset (?ys ! ?idx) = rep_offset r"
    using le assms(4) by (simp_all add: array_insert_length array_insert_nth)
  from lower_bound_unique[OF \<open>offsets_ascending ?ys\<close> n]
  show l: "lower_bound_of (inserted q ib r r1) ib (rep_offset r) = ?idx"
    by (simp only: lower_bound_of_def ys)
  from n show "hit (inserted q ib r r1) ib (rep_offset r)"
    unfolding hit_def l by (simp only: ys simp_thms)
  have "length (representations (info_heap q ! ib)) = length ?xs" by (simp add: reps_of_def)
  with le show "representations (info_heap (inserted q ib r r1) ! ib)
           ! lower_bound_of (inserted q ib r r1) ib (rep_offset r) = length (rep_heap q)"
    unfolding l inserted_representations[OF assms(2)] by (simp add: array_insert_nth)
  have "rep_offset r \<in> set (map rep_offset ?ys)"
    using n by (metis nth_mem image_eqI set_map)
  then have "filter (\<lambda>x. rep_offset x = rep_offset r) ?ys \<noteq> []"
    by (auto simp: filter_empty_conv)
  then have "1 \<le> length (filter (\<lambda>x. rep_offset x = rep_offset r) ?ys)"
    by (simp add: Suc_le_eq)
  with offsets_ascending_count[OF \<open>offsets_ascending ?ys\<close>, of "rep_offset r"]
  show "length (filter (\<lambda>x. rep_offset x = rep_offset r) (reps_of (inserted q ib r r1) ib)) = 1"
    unfolding ys by linarith
qed

lemma inserted_sorted:
  assumes "reps_sorted q" "\<not> hit q ib (rep_offset r)" "rep_offset r1 = rep_offset r"
  shows "reps_sorted (inserted q ib r r1)"
proof -
  have "reps_sorted (insert_rep q ib r)"
    unfolding insert_rep_def lower_bound_of_def
    by (rule srt_new_rep[OF assms(1) refl]) (use assms(2) in \<open>simp add: hit_def lower_bound_of_def\<close>)
  from srt_heap_update[OF this, of r1 "length (rep_heap q)"] assms(3)
  show ?thesis by (simp add: inserted_def insert_rep_def)
qed

lemma first_reference:
  assumes "resolve_info q ia (r_revision rep) = Some ib"
    and "\<not> hit q ib (sint (r_item_index rep))"
    and "reference_rep q (Some rep) ia k = Inr (q1, t1)"
  shows "\<exists>h. t1 = Some (length (rep_heap q))
           \<and> q1 = inserted q ib (new_rep rep h) (add_reference (new_rep rep h) k)"
proof (cases "header_of q ib rep")
  case (Inl e)
  with assms show ?thesis by (simp add: reference_rep_def parse_representation_alt)
next
  case (Inr h)
  with assms have "t1 = Some (length (rep_heap q))"
    "q1 = inserted q ib (new_rep rep h) (add_reference (new_rep rep h) k)"
    by (auto simp: reference_rep_def parse_representation_alt inserted_def insert_rep_def)
  then show ?thesis by blast
qed

lemma new_rep_fields:
  "rep_offset (new_rep rep h) = sint (r_item_index rep)" "ref_count (new_rep rep h) = 0"
  "kind (new_rep rep h) = unused_rep"
  by (simp_all add: new_rep_def)

lemma second_reference_count:
  "ref_count r = 0 \<Longrightarrow> ref_count (add_reference (add_reference r k) k') = 2
     \<and> kind (add_reference (add_reference r k) k') = k"
  by (simp add: add_reference_def Let_def)

lemma create_query_sorted:
  "create_query f st pf pb cf cb impl = Inr q \<Longrightarrow> reps_sorted q \<and> revisions q = []"
  by (auto simp: create_query_def reps_sorted_def split: sum.splits)

lemma two_references:
  assumes srt: "reps_sorted q" and ib: "ib < length (info_heap q)"
    and res: "resolve_info q ia (r_revision rep) = Some ib"
    and miss: "\<not> hit q ib (sint (r_item_index rep))"
    and same: "r_revision rep' = r_revision rep" "r_item_index rep' = r_item_index rep"
    and first: "reference_rep q (Some rep) ia k = Inr (q1, t1)"
  shows "\<exists>t q2. t1 = Some t
          \<and> parse_representation q1 rep' ia = Inr (q1, t)
          \<and> reference_rep q1 (Some rep') ia k' = Inr (q2, Some t)
          \<and> representations (info_heap q2 ! ib) = representations (info_heap q1 ! ib)
          \<and> length (rep_heap q2) = length (rep_heap q1)
          \<and> t \<in> set (representations (info_heap q2 ! ib))
          \<and> rep_offset (rep_heap q2 ! t) = sint (r_item_index rep)
          \<and> ref_count (rep_heap q2 ! t) = 2
          \<and> length (filter (\<lambda>r. rep_offset r = sint (r_item_index rep)) (reps_of q2 ib)) = 1
          \<and> reps_sorted q2"
proof -
  from first_reference[OF res miss first] obtain h where
    t1: "t1 = Some (length (rep_heap q))"
    and q1: "q1 = inserted q ib (new_rep rep h) (add_reference (new_rep rep h) k)" by blast
  let ?new = "new_rep rep h"
  let ?t = "length (rep_heap q)"
  let ?r1 = "add_reference ?new k"
  let ?r2 = "add_reference ?r1 k'"
  let ?off = "sint (r_item_index rep)"
  let ?q2 = "inserted q ib ?new ?r2"
  have off: "rep_offset ?new = ?off" "rep_offset ?r1 = rep_offset ?new"
    "rep_offset ?r2 = rep_offset ?new"
    by (simp_all add: new_rep_fields rep_offset_add_reference)
  have miss': "\<not> hit q ib (rep_offset ?new)" using miss by (simp add: off(1))
  note f1 = inserted_found[OF srt ib miss' off(2)]
  note f2 = inserted_found[OF srt ib miss' off(3)]
  have res1: "resolve_info q1 ia (r_revision rep') = Some ib"
    by (simp only: q1 inserted_resolve same res)
  have hit1: "hit q1 ib (sint (r_item_index rep'))"
    using f1(3) by (simp only: q1 same off(1))
  have idx1: "representations (info_heap q1 ! ib) ! lower_bound_of q1 ib (sint (r_item_index rep'))
              = ?t"
    using f1(4) by (simp only: q1 same off(1))
  have parse: "parse_representation q1 rep' ia = Inr (q1, ?t)"
    by (simp only: parse_representation_alt res1 option.case hit1 if_True idx1)
  have heap1: "rep_heap q1 ! ?t = ?r1" by (simp only: q1 inserted_fields(4))
  have "q1\<lparr>rep_heap := (rep_heap q1)[?t := add_reference (rep_heap q1 ! ?t) k']\<rparr> = ?q2"
    unfolding heap1 unfolding q1 by (rule inserted_overwrite)
  then have ref2: "reference_rep q1 (Some rep') ia k' = Inr (?q2, Some ?t)"
    by (simp add: reference_rep_def parse)
  have reprs: "representations (info_heap ?q2 ! ib) = representations (info_heap q1 ! ib)"
    by (simp only: q1 inserted_representations[OF ib])
  have len: "length (rep_heap ?q2) = length (rep_heap q1)"
    by (simp only: q1 inserted_fields(5))
  have "lower_bound_of q ib (rep_offset ?new) \<le> length (representations (info_heap q ! ib))"
    using lower_bound_spec[OF reps_sorted_ascending[OF srt ib], of "rep_offset ?new"]
    by (simp add: lower_bound_of_def reps_of_def)
  then have mem: "?t \<in> set (representations (info_heap ?q2 ! ib))"
    unfolding inserted_representations[OF ib]
    by (metis array_insert_nth array_insert_length nth_mem le_imp_less_Suc)
  have heap2: "rep_heap ?q2 ! ?t = ?r2" by (rule inserted_fields(4))
  have o2: "rep_offset (rep_heap ?q2 ! ?t) = ?off" by (simp only: heap2 off)
  have c2: "ref_count (rep_heap ?q2 ! ?t) = 2"
    unfolding heap2 using second_reference_count[of ?new k k'] by (simp add: new_rep_fields)
  have one: "length (filter (\<lambda>r. rep_offset r = ?off) (reps_of ?q2 ib)) = 1"
    using f2(5) by (simp only: off(1))
  have s2: "reps_sorted ?q2" by (rule inserted_sorted[OF srt miss' off(3)])
  from t1 parse ref2 reprs len mem o2 c2 one s2 show ?thesis by blast
qed


text \<open>
  Claim C2. Take a query whose vectors of representations are sorted by offset, and a
  representation whose revision resolves to the revision info \<open>ib\<close> and whose offset
  is not in the vector of \<open>ib\<close> yet. When \<^verbatim>\<open>read_noderev\<close> references it (the first
  \<open>reference_rep\<close>) and then references the same revision and offset again, the second
  \<open>parse_representation\<close> returns the representation the first one created and leaves
  the query as it is: the vector and the heap keep their lengths, the vector holds
  exactly one representation with that offset, and its reference count is 2. More
  generally, the lookup in a sorted vector hits exactly when a representation with the
  offset is present, no sorted vector holds two representations with one offset, a hit
  returns the representation found without inserting anything, and the traversal keeps
  every vector sorted.
\<close>

theorem representation_dedup:
  "(reps_sorted q \<and> ib < length (info_heap q)
      \<and> resolve_info q ia (r_revision rep) = Some ib
      \<and> \<not> hit q ib (sint (r_item_index rep))
      \<and> r_revision rep' = r_revision rep \<and> r_item_index rep' = r_item_index rep
      \<and> reference_rep q (Some rep) ia k = Inr (q1, t1)
    \<longrightarrow> (\<exists>t q2. t1 = Some t
          \<and> parse_representation q1 rep' ia = Inr (q1, t)
          \<and> reference_rep q1 (Some rep') ia k' = Inr (q2, Some t)
          \<and> representations (info_heap q2 ! ib) = representations (info_heap q1 ! ib)
          \<and> length (rep_heap q2) = length (rep_heap q1)
          \<and> t \<in> set (representations (info_heap q2 ! ib))
          \<and> rep_offset (rep_heap q2 ! t) = sint (r_item_index rep)
          \<and> ref_count (rep_heap q2 ! t) = 2
          \<and> length (filter (\<lambda>r. rep_offset r = sint (r_item_index rep)) (reps_of q2 ib)) = 1
          \<and> reps_sorted q2))
   \<and> (reps_sorted q \<and> ib < length (info_heap q) \<longrightarrow>
        hit q ib off = (off \<in> set (map rep_offset (reps_of q ib)))
        \<and> length (filter (\<lambda>r. rep_offset r = off) (reps_of q ib)) \<le> 1)
   \<and> (resolve_info q ia (r_revision rep) = Some ib \<and> hit q ib (sint (r_item_index rep)) \<longrightarrow>
        parse_representation q rep ia
          = Inr (q, representations (info_heap q ! ib)
                      ! lower_bound_of q ib (sint (r_item_index rep))))
   \<and> (reps_sorted q \<and> evolves q q' \<longrightarrow> reps_sorted q')
   \<and> (create_query f st pf pb cf cb impl = Inr q0 \<longrightarrow> reps_sorted q0)
   \<and> (create_query f st pf pb cf cb impl = Inr q0 \<and> read_revisions fuel q0 = Some (e, qn)
        \<longrightarrow> reps_sorted qn)"
proof (intro conjI impI)
  assume "reps_sorted q \<and> ib < length (info_heap q)
      \<and> resolve_info q ia (r_revision rep) = Some ib
      \<and> \<not> hit q ib (sint (r_item_index rep))
      \<and> r_revision rep' = r_revision rep \<and> r_item_index rep' = r_item_index rep
      \<and> reference_rep q (Some rep) ia k = Inr (q1, t1)"
  then have "reps_sorted q" "ib < length (info_heap q)"
    "resolve_info q ia (r_revision rep) = Some ib" "\<not> hit q ib (sint (r_item_index rep))"
    "r_revision rep' = r_revision rep" "r_item_index rep' = r_item_index rep"
    "reference_rep q (Some rep) ia k = Inr (q1, t1)" by blast+
  then show "\<exists>t q2. t1 = Some t
          \<and> parse_representation q1 rep' ia = Inr (q1, t)
          \<and> reference_rep q1 (Some rep') ia k' = Inr (q2, Some t)
          \<and> representations (info_heap q2 ! ib) = representations (info_heap q1 ! ib)
          \<and> length (rep_heap q2) = length (rep_heap q1)
          \<and> t \<in> set (representations (info_heap q2 ! ib))
          \<and> rep_offset (rep_heap q2 ! t) = sint (r_item_index rep)
          \<and> ref_count (rep_heap q2 ! t) = 2
          \<and> length (filter (\<lambda>r. rep_offset r = sint (r_item_index rep)) (reps_of q2 ib)) = 1
          \<and> reps_sorted q2"
    by (rule two_references)
next
  assume a: "reps_sorted q \<and> ib < length (info_heap q)"
  then show "hit q ib off = (off \<in> set (map rep_offset (reps_of q ib)))"
    using hit_iff_present[of q ib off] by blast
  from a show "length (filter (\<lambda>r. rep_offset r = off) (reps_of q ib)) \<le> 1"
    using reps_unique[of q ib off] by blast
next
  assume "resolve_info q ia (r_revision rep) = Some ib \<and> hit q ib (sint (r_item_index rep))"
  then show "parse_representation q rep ia
          = Inr (q, representations (info_heap q ! ib)
                      ! lower_bound_of q ib (sint (r_item_index rep)))"
    by (simp add: parse_representation_alt)
next
  assume "reps_sorted q \<and> evolves q q'"
  then show "reps_sorted q'" using evolves_reps_sorted[of q q'] by blast
next
  assume "create_query f st pf pb cf cb impl = Inr q0"
  then show "reps_sorted q0" using create_query_sorted by blast
next
  assume a: "create_query f st pf pb cf cb impl = Inr q0 \<and> read_revisions fuel q0 = Some (e, qn)"
  with create_query_sorted[of f st pf pb cf cb impl q0]
  have "reps_sorted q0" "revisions q0 = []" "read_revisions fuel q0 = Some (e, qn)" by blast+
  from evolves_reps_sorted[OF read_revisions_evolves[OF this(3,2)] this(1)]
  show "reps_sorted qn" .
qed

theorem representation_dedup_witness:
  "(\<exists>q0 q1 q2 t.
      create_query (example_fs 0 two_noderev_entries example_noderev) create_stats 0 0 0 0
        never_cancel = Inr q0
      \<and> reference_rep (push_revision_infos 1 q0 0) (data_rep example_noderev) 0 file_rep
          = Inr (q1, Some t)
      \<and> reference_rep q1 (data_rep example_noderev) 0 file_rep = Inr (q2, Some t)
      \<and> ref_count (rep_heap q2 ! t) = 2
      \<and> length (filter (\<lambda>r. rep_offset r = 3) (reps_of q2 0)) = 1)
   \<and> (case create_query (example_fs 0 two_noderev_entries example_noderev) create_stats
             0 0 0 0 never_cancel of
        Inl err \<Rightarrow> False
      | Inr q \<Rightarrow>
          (case read_revisions 3 q of
             Some (None, q') \<Rightarrow>
               map ref_count (rep_heap q') = [2] \<and> map rep_offset (rep_heap q') = [3]
               \<and> representations (info_heap q' ! 0) = [0]
               \<and> file_noderev_count (info_heap q' ! 0) = 2
           | _ \<Rightarrow> False))"
proof -
  let ?rep = "\<lparr>r_revision = 0, r_item_index = 3, r_size = 5, r_expanded_size = 9\<rparr>"
  have d: "data_rep example_noderev = Some ?rep" by (simp add: example_noderev_def)
  have "(case create_query (example_fs 0 two_noderev_entries example_noderev) create_stats
               0 0 0 0 never_cancel of
           Inl err \<Rightarrow> False
         | Inr q0 \<Rightarrow>
             (let q = push_revision_infos 1 q0 0
              in reps_sorted q \<and> 0 < length (info_heap q)
                 \<and> resolve_info q 0 (r_revision ?rep) = Some 0
                 \<and> \<not> hit q 0 (sint (r_item_index ?rep))
                 \<and> (case reference_rep q (Some ?rep) 0 file_rep of
                      Inl err \<Rightarrow> False | Inr r \<Rightarrow> True)))"
    by code_simp
  then obtain q0 q1 t1 where
    q0: "create_query (example_fs 0 two_noderev_entries example_noderev) create_stats 0 0 0 0
           never_cancel = Inr q0"
    and h: "reps_sorted (push_revision_infos 1 q0 0)"
      "0 < length (info_heap (push_revision_infos 1 q0 0))"
      "resolve_info (push_revision_infos 1 q0 0) 0 (r_revision ?rep) = Some 0"
      "\<not> hit (push_revision_infos 1 q0 0) 0 (sint (r_item_index ?rep))"
    and r: "reference_rep (push_revision_infos 1 q0 0) (Some ?rep) 0 file_rep = Inr (q1, t1)"
    by (auto simp: Let_def split: sum.splits)
  from representation_dedup[of "push_revision_infos 1 q0 0" 0 0 ?rep ?rep file_rep q1 t1 file_rep]
    h r
  obtain t q2 where "t1 = Some t" "reference_rep q1 (Some ?rep) 0 file_rep = Inr (q2, Some t)"
    "ref_count (rep_heap q2 ! t) = 2"
    "length (filter (\<lambda>r. rep_offset r = sint (r_item_index ?rep)) (reps_of q2 0)) = 1"
    by blast
  with q0 r have 1: "\<exists>q0 q1 q2 t.
      create_query (example_fs 0 two_noderev_entries example_noderev) create_stats 0 0 0 0
        never_cancel = Inr q0
      \<and> reference_rep (push_revision_infos 1 q0 0) (data_rep example_noderev) 0 file_rep
          = Inr (q1, Some t)
      \<and> reference_rep q1 (data_rep example_noderev) 0 file_rep = Inr (q2, Some t)
      \<and> ref_count (rep_heap q2 ! t) = 2
      \<and> length (filter (\<lambda>r. rep_offset r = 3) (reps_of q2 0)) = 1"
    unfolding d by (intro exI[of _ q0] exI[of _ q1] exI[of _ q2] exI[of _ t]) simp
  have 2: "(case create_query (example_fs 0 two_noderev_entries example_noderev) create_stats
             0 0 0 0 never_cancel of
        Inl err \<Rightarrow> False
      | Inr q \<Rightarrow>
          (case read_revisions 3 q of
             Some (None, q') \<Rightarrow>
               map ref_count (rep_heap q') = [2] \<and> map rep_offset (rep_heap q') = [3]
               \<and> representations (info_heap q' ! 0) = [0]
               \<and> file_noderev_count (info_heap q' ! 0) = 2
           | _ \<Rightarrow> False))"
    by code_simp
  from 1 2 show ?thesis by blast
qed

subsection \<open>The kind of a representation\<close>






















end
